theory Spec2Isabelle
  imports Main "HOL-Library.Word"
begin

unbundle bit_operations_syntax

section \<open>The file system seen by \<open>file_organizer.py\<close>\<close>

text \<open>
  Paths and digests are Python \<open>str\<close> values; \<open>len\<close> of a path is modelled by
  \<open>length\<close>. File contents are byte strings.
\<close>

type_synonym path = string
type_synonym digest = string
type_synonym byte = "8 word"

text \<open>The subclasses of \<open>OSError\<close> that the calls of the script can raise.\<close>

datatype os_error = PermissionError | FileNotFoundError | IsADirectoryError | OSError

text \<open>
  The exceptions that reach the caller of \<open>remove_duplicates\<close>: those outside
  \<open>OSError\<close>, and an \<open>OSError\<close> raised outside the \<open>try\<close> block of lines 117 to 119.
\<close>

datatype py_exception =
    IndexError
  | ValueError string
  | UnicodeEncodeError string
  | UncaughtOSError os_error

text \<open>
  What a path resolves to. \<open>Path.is_file()\<close> and \<open>Path.stat()\<close> follow symbolic
  links, so \<open>ftype\<close> is the type of the link's target; \<open>is_symlink\<close> records
  whether the directory entry itself is a link. The other fields are what each call
  on the path observes when it is made: \<open>is_file_raises\<close> is the error that
  \<open>is_file()\<close> propagates (pathlib answers \<open>False\<close> for a missing path or a
  broken link and re-raises any other \<open>OSError\<close>, such as a permission error),
  \<open>stat_size\<close> the result of \<open>stat().st_size\<close>, \<open>read_bytes\<close> the result of
  opening the file and reading it to the end, \<open>unlink_denied\<close> the error of
  \<open>os.remove\<close>.
\<close>

datatype file_type = RegularFile | DirectoryNode | SpecialNode | Dangling

record node =
  is_symlink :: bool
  ftype :: file_type
  is_file_raises :: "os_error option"
  stat_size :: "os_error + nat"
  read_bytes :: "os_error + byte list"
  unlink_denied :: "os_error option"

text \<open>
  What \<open>Path(directory).rglob('*')\<close> finds at the root. pathlib first asks
  \<open>is_dir()\<close> of the root, which answers \<open>False\<close> for a missing path and
  re-raises other errors; a root that is not a directory yields nothing; a
  \<open>PermissionError\<close> while listing is swallowed by pathlib; otherwise every entry
  below the root is yielded once, in traversal order.
\<close>

datatype walk =
    NoSuchDirectory
  | NotADirectory
  | ListingDenied
  | RootStatFails os_error
  | Listing "path list"

text \<open>
  \<open>entries\<close> gives what each path string denotes, every spelling of a name included.
  Path strings are not independent of each other: two spellings may denote one
  directory entry, and a symbolic link is observed through its target. What removing
  one name does to the observations of all the paths is therefore a part of the file
  system, \<open>unlink_effect\<close>: given the path removed and the entries before, the
  entries after.

  Two more facts of the platform are recorded with the file system.
  \<open>fsencode_raises\<close> is the exception raised when a \<open>str\<close> is encoded to a file
  name (\<open>UnicodeEncodeError\<close> for a \<open>str\<close> that the file system encoding cannot
  encode), and \<open>print_raises\<close> the exception raised when the line
  \<open>Failed to delete {path}: {e}\<close> is written to \<open>sys.stdout\<close>
  (\<open>UnicodeEncodeError\<close> for a path that the encoding of the stream cannot encode,
  an \<open>OSError\<close> for a stream that cannot be written).
\<close>

record filesystem =
  entries :: "path \<rightharpoonup> node"
  tree :: "path \<Rightarrow> walk"
  unlink_effect :: "path \<Rightarrow> (path \<rightharpoonup> node) \<Rightarrow> (path \<rightharpoonup> node)"
  fsencode_raises :: "path \<Rightarrow> py_exception option"
  print_raises :: "path \<Rightarrow> os_error \<Rightarrow> py_exception option"

definition rglob :: "filesystem \<Rightarrow> path \<Rightarrow> os_error + path list" where
  "rglob fs directory =
     (case tree fs directory of
        NoSuchDirectory \<Rightarrow> Inr []
      | NotADirectory \<Rightarrow> Inr []
      | ListingDenied \<Rightarrow> Inr []
      | RootStatFails e \<Rightarrow> Inl e
      | Listing ps \<Rightarrow> Inr ps)"

definition is_file :: "filesystem \<Rightarrow> path \<Rightarrow> os_error + bool" where
  "is_file fs p =
     (case entries fs p of
        None \<Rightarrow> Inr False
      | Some n \<Rightarrow>
          (case is_file_raises n of
             Some e \<Rightarrow> Inl e
           | None \<Rightarrow> Inr (ftype n = RegularFile)))"

definition stat_st_size :: "filesystem \<Rightarrow> path \<Rightarrow> os_error + nat" where
  "stat_st_size fs p =
     (case entries fs p of None \<Rightarrow> Inl FileNotFoundError | Some n \<Rightarrow> stat_size n)"

definition open_read :: "filesystem \<Rightarrow> path \<Rightarrow> os_error + byte list" where
  "open_read fs p =
     (case entries fs p of None \<Rightarrow> Inl FileNotFoundError | Some n \<Rightarrow> read_bytes n)"

text \<open>
  \<open>os.remove\<close> first converts its argument to a file name: the \<open>str\<close> is encoded,
  then a NUL character in it is refused (\<open>ValueError: embedded null byte\<close>). Both
  happen before the file system is consulted.
\<close>

definition path_converter :: "filesystem \<Rightarrow> path \<Rightarrow> py_exception option" where
  "path_converter fs p =
     (case fsencode_raises fs p of
        Some e \<Rightarrow> Some e
      | None \<Rightarrow>
          if CHR 0x00 \<in> set p then Some (ValueError ''embedded null byte'') else None)"

text \<open>
  \<open>os.remove(path)\<close> has three outcomes: the name is removed; an \<open>OSError\<close> is
  raised, which line 120 catches; or the conversion of the path raises, which line 120
  does not catch. After a removal the path itself no longer exists, and the other
  paths are as \<open>unlink_effect\<close> says.
\<close>

datatype 'a remove_result = Removed 'a | Caught os_error | Uncaught py_exception

definition os_remove :: "filesystem \<Rightarrow> path \<Rightarrow> filesystem remove_result" where
  "os_remove fs p =
     (case path_converter fs p of
        Some e \<Rightarrow> Uncaught e
      | None \<Rightarrow>
        (case entries fs p of
           None \<Rightarrow> Caught FileNotFoundError
         | Some n \<Rightarrow>
             if ftype n = DirectoryNode \<and> \<not> is_symlink n then Caught IsADirectoryError
             else (case unlink_denied n of
                     Some e \<Rightarrow> Caught e
                   | None \<Rightarrow>
                       Removed (fs\<lparr>entries := (unlink_effect fs p (entries fs))(p := None)\<rparr>))))"

section \<open>MD5 as computed by \<open>hashlib.md5\<close>\<close>

text \<open>
  The digest function of RFC 1321 on a byte string, in lower-case hexadecimal as
  \<open>hexdigest()\<close> prints it: the sine table, the rotation amounts, the four rounds
  of sixteen steps on each 64-byte block, the padding with the bit length.
\<close>

definition md5_K :: "32 word list" where
  "md5_K =
     [0xd76aa478, 0xe8c7b756, 0x242070db, 0xc1bdceee,
      0xf57c0faf, 0x4787c62a, 0xa8304613, 0xfd469501,
      0x698098d8, 0x8b44f7af, 0xffff5bb1, 0x895cd7be,
      0x6b901122, 0xfd987193, 0xa679438e, 0x49b40821,
      0xf61e2562, 0xc040b340, 0x265e5a51, 0xe9b6c7aa,
      0xd62f105d, 0x02441453, 0xd8a1e681, 0xe7d3fbc8,
      0x21e1cde6, 0xc33707d6, 0xf4d50d87, 0x455a14ed,
      0xa9e3e905, 0xfcefa3f8, 0x676f02d9, 0x8d2a4c8a,
      0xfffa3942, 0x8771f681, 0x6d9d6122, 0xfde5380c,
      0xa4beea44, 0x4bdecfa9, 0xf6bb4b60, 0xbebfbc70,
      0x289b7ec6, 0xeaa127fa, 0xd4ef3085, 0x04881d05,
      0xd9d4d039, 0xe6db99e5, 0x1fa27cf8, 0xc4ac5665,
      0xf4292244, 0x432aff97, 0xab9423a7, 0xfc93a039,
      0x655b59c3, 0x8f0ccc92, 0xffeff47d, 0x85845dd1,
      0x6fa87e4f, 0xfe2ce6e0, 0xa3014314, 0x4e0811a1,
      0xf7537e82, 0xbd3af235, 0x2ad7d2bb, 0xeb86d391]"

definition md5_s :: "nat list" where
  "md5_s =
     [7, 12, 17, 22, 7, 12, 17, 22, 7, 12, 17, 22, 7, 12, 17, 22,
      5, 9, 14, 20, 5, 9, 14, 20, 5, 9, 14, 20, 5, 9, 14, 20,
      4, 11, 16, 23, 4, 11, 16, 23, 4, 11, 16, 23, 4, 11, 16, 23,
      6, 10, 15, 21, 6, 10, 15, 21, 6, 10, 15, 21, 6, 10, 15, 21]"

definition rotl32 :: "32 word \<Rightarrow> nat \<Rightarrow> 32 word" where
  "rotl32 x n = push_bit n x OR drop_bit (32 - n) x"

text \<open>The four 32-bit registers.\<close>

type_synonym md5_state = "32 word \<times> 32 word \<times> 32 word \<times> 32 word"

definition md5_round :: "32 word list \<Rightarrow> nat \<Rightarrow> md5_state \<Rightarrow> md5_state" where
  "md5_round M i st =
     (case st of (a, b, c, d) \<Rightarrow>
        let f = (if i < 16 then (b AND c) OR (NOT b AND d)
                 else if i < 32 then (d AND b) OR (NOT d AND c)
                 else if i < 48 then b XOR c XOR d
                 else c XOR (b OR NOT d));
            g = (if i < 16 then i
                 else if i < 32 then (5 * i + 1) mod 16
                 else if i < 48 then (3 * i + 5) mod 16
                 else (7 * i) mod 16);
            f' = f + a + md5_K ! i + M ! g
        in (d, b + rotl32 f' (md5_s ! i), b, c))"

definition le32 :: "byte list \<Rightarrow> 32 word" where
  "le32 bs = foldr (\<lambda>x w. ucast x OR push_bit 8 w) bs 0"

definition md5_words :: "byte list \<Rightarrow> 32 word list" where
  "md5_words block = map (\<lambda>j. le32 (take 4 (drop (4 * j) block))) [0..<16]"

definition md5_block :: "md5_state \<Rightarrow> byte list \<Rightarrow> md5_state" where
  "md5_block st block =
     (case st of (a0, b0, c0, d0) \<Rightarrow>
        case fold (md5_round (md5_words block)) [0..<64] st of (a, b, c, d) \<Rightarrow>
          (a0 + a, b0 + b, c0 + c, d0 + d))"

definition bytes_le :: "nat \<Rightarrow> 64 word \<Rightarrow> byte list" where
  "bytes_le k w = map (\<lambda>j. ucast (drop_bit (8 * j) w)) [0..<k]"

definition md5_pad :: "byte list \<Rightarrow> byte list" where
  "md5_pad msg =
     msg @ [0x80] @ replicate ((119 - length msg mod 64) mod 64) 0 @ bytes_le 8 (8 * of_nat (length msg))"

definition hex_digit :: "nat \<Rightarrow> char" where
  "hex_digit n = ''0123456789abcdef'' ! n"

definition hex_byte :: "byte \<Rightarrow> string" where
  "hex_byte x = [hex_digit (unat (drop_bit 4 x)), hex_digit (unat (x AND 0xf))]"

definition md5_hexdigest :: "byte list \<Rightarrow> digest" where
  "md5_hexdigest msg =
     (let padded = md5_pad msg;
          blocks = map (\<lambda>j. take 64 (drop (64 * j) padded)) [0..<length padded div 64]
      in case fold (\<lambda>block st. md5_block st block) blocks
                (0x67452301, 0xefcdab89, 0x98badcfe, 0x10325476) of
           (a, b, c, d) \<Rightarrow> concat (map hex_byte (concat (map (\<lambda>w. bytes_le 4 (ucast w)) [a, b, c, d]))))"

text \<open>
  A \<open>hashlib\<close> hash object is the data fed to it so far: \<open>update\<close> appends, and
  \<open>hexdigest\<close> is the digest of the concatenation.
\<close>

type_synonym hasher = "byte list"

definition update :: "hasher \<Rightarrow> byte list \<Rightarrow> hasher" where
  "update hasher chunk = hasher @ chunk"

definition hexdigest :: "hasher \<Rightarrow> digest" where
  "hexdigest hasher = md5_hexdigest hasher"

section \<open>\<open>find_duplicates\<close> and \<open>_hash_file\<close>\<close>

text \<open>
  A \<open>defaultdict(list)\<close>, in insertion order of its keys: \<open>d[k].append(v)\<close>.
\<close>

fun dict_append :: "'k \<Rightarrow> 'v \<Rightarrow> ('k \<times> 'v list) list \<Rightarrow> ('k \<times> 'v list) list" where
  "dict_append k v [] = [(k, [v])]"
| "dict_append k v ((k', vs) # d) =
     (if k = k' then (k', vs @ [v]) # d else (k', vs) # dict_append k v d)"

text \<open>All the values of a dictionary, key after key.\<close>

fun dict_values :: "('k \<times> 'v list) list \<Rightarrow> 'v list" where
  "dict_values [] = []"
| "dict_values ((k, vs) # d) = vs @ dict_values d"

text \<open>
  Lines 83 and 84: \<open>while chunk := f.read(chunk_size): hasher.update(chunk)\<close>. A read
  returns at most \<open>chunk_size\<close> bytes of what is left; the loop ends at the first
  empty chunk.
\<close>

function feed_chunks :: "nat \<Rightarrow> byte list \<Rightarrow> hasher \<Rightarrow> hasher" where
  "feed_chunks chunk_size unread hasher =
     (if take chunk_size unread = [] then hasher
      else feed_chunks chunk_size (drop chunk_size unread) (update hasher (take chunk_size unread)))"
  by pat_completeness auto
termination
  by (relation "measure (\<lambda>(chunk_size, unread, hasher). length unread)") auto

declare feed_chunks.simps [simp del]

text \<open>Lines 79 to 85; opening or reading the file may raise.\<close>

definition hash_file :: "filesystem \<Rightarrow> path \<Rightarrow> nat \<Rightarrow> os_error + digest" where
  "hash_file fs file_path chunk_size =
     (case open_read fs file_path of
        Inl e \<Rightarrow> Inl e
      | Inr content \<Rightarrow> Inr (hexdigest (feed_chunks chunk_size content [])))"

text \<open>
  Lines 53 to 60: the first pass. \<open>is_file()\<close> is called outside the \<open>try\<close>, so an
  error it raises leaves the function; an error of \<open>stat()\<close> skips the entry.
\<close>

fun size_pass ::
  "filesystem \<Rightarrow> int \<Rightarrow> path list \<Rightarrow> (nat \<times> path list) list
     \<Rightarrow> os_error + (nat \<times> path list) list" where
  "size_pass fs min_size [] size_map = Inr size_map"
| "size_pass fs min_size (file_path # rest) size_map =
     (case is_file fs file_path of
        Inl e \<Rightarrow> Inl e
      | Inr b \<Rightarrow>
          if b then
            (case stat_st_size fs file_path of
               Inl e \<Rightarrow> size_pass fs min_size rest size_map
             | Inr size' \<Rightarrow>
                 if int size' \<ge> min_size
                 then size_pass fs min_size rest (dict_append size' file_path size_map)
                 else size_pass fs min_size rest size_map)
          else size_pass fs min_size rest size_map)"

text \<open>Lines 67 to 72: hashing the files of one size; a file that cannot be read is skipped.\<close>

fun hash_files ::
  "filesystem \<Rightarrow> path list \<Rightarrow> (digest \<times> path list) list \<Rightarrow> (digest \<times> path list) list" where
  "hash_files fs [] hash_map = hash_map"
| "hash_files fs (file_path # files) hash_map =
     (case hash_file fs file_path 8192 of
        Inl e \<Rightarrow> hash_files fs files hash_map
      | Inr file_hash \<Rightarrow> hash_files fs files (dict_append file_hash file_path hash_map))"

text \<open>Lines 65 and 66: the loop over the sizes; only sizes with several files are hashed.\<close>

fun hash_pass ::
  "filesystem \<Rightarrow> (nat \<times> path list) list \<Rightarrow> (digest \<times> path list) list
     \<Rightarrow> (digest \<times> path list) list" where
  "hash_pass fs [] hash_map = hash_map"
| "hash_pass fs ((size', files) # rest) hash_map =
     (if length files > 1 then hash_pass fs rest (hash_files fs files hash_map)
      else hash_pass fs rest hash_map)"

text \<open>Lines 48 to 77. The value is the dictionary \<open>duplicates\<close>, or the exception.\<close>

definition find_duplicates ::
  "filesystem \<Rightarrow> path \<Rightarrow> int \<Rightarrow> os_error + (digest \<times> path list) list" where
  "find_duplicates fs directory min_size =
     (case rglob fs directory of
        Inl e \<Rightarrow> Inl e
      | Inr listing \<Rightarrow>
          (case size_pass fs min_size listing [] of
             Inl e \<Rightarrow> Inl e
           | Inr size_map \<Rightarrow>
               Inr (filter (\<lambda>(h, paths). length paths > 1) (hash_pass fs size_map []))))"

text \<open>Every value stored under a key of a dictionary satisfies \<open>Q\<close>.\<close>

definition all_members :: "('k \<Rightarrow> 'v \<Rightarrow> bool) \<Rightarrow> ('k \<times> 'v list) list \<Rightarrow> bool" where
  "all_members Q d \<longleftrightarrow> (\<forall>k vs v. (k, vs) \<in> set d \<longrightarrow> v \<in> set vs \<longrightarrow> Q k v)"

text \<open>
  What holds of a path stored under a size in \<open>size_map\<close>, and of a path stored
  under a digest in \<open>hash_map\<close>.
\<close>

definition sized :: "filesystem \<Rightarrow> int \<Rightarrow> path list \<Rightarrow> nat \<Rightarrow> path \<Rightarrow> bool" where
  "sized fs min_size listing s p \<longleftrightarrow>
     p \<in> set listing \<and> is_file fs p = Inr True \<and> stat_st_size fs p = Inr s \<and> min_size \<le> int s"

definition hashed :: "filesystem \<Rightarrow> int \<Rightarrow> path list \<Rightarrow> digest \<Rightarrow> path \<Rightarrow> bool" where
  "hashed fs min_size listing h p \<longleftrightarrow>
     (\<exists>s. sized fs min_size listing s p) \<and> (\<exists>c. open_read fs p = Inr c \<and> md5_hexdigest c = h)"

section \<open>\<open>remove_duplicates\<close>\<close>

text \<open>The line \<open>print(f"Failed to delete {path}: {e}")\<close>.\<close>

datatype output_line = Failed_to_delete path os_error

fun failed_path :: "output_line \<Rightarrow> path" where
  "failed_path (Failed_to_delete p e) = p"

text \<open>
  \<open>min(paths, key=len)\<close> and \<open>max(paths, key=len)\<close>: the first element with the
  smallest (largest) length; \<open>ValueError\<close> on an empty list.
\<close>

fun min_len_from :: "path \<Rightarrow> path list \<Rightarrow> path" where
  "min_len_from best [] = best"
| "min_len_from best (p # ps) = min_len_from (if length p < length best then p else best) ps"

fun max_len_from :: "path \<Rightarrow> path list \<Rightarrow> path" where
  "max_len_from best [] = best"
| "max_len_from best (p # ps) = max_len_from (if length p > length best then p else best) ps"

definition py_min_len :: "path list \<Rightarrow> py_exception + path" where
  "py_min_len paths =
     (case paths of
        [] \<Rightarrow> Inl (ValueError ''min() arg is an empty sequence'')
      | p # ps \<Rightarrow> Inr (min_len_from p ps))"

definition py_max_len :: "path list \<Rightarrow> py_exception + path" where
  "py_max_len paths =
     (case paths of
        [] \<Rightarrow> Inl (ValueError ''max() arg is an empty sequence'')
      | p # ps \<Rightarrow> Inr (max_len_from p ps))"

definition policies :: "string list" where
  "policies = [''first'', ''last'', ''shortest_path'', ''longest_path'']"

text \<open>Lines 103 to 112: the path to keep, or the exception raised.\<close>

definition select_keep :: "string \<Rightarrow> path list \<Rightarrow> py_exception + path" where
  "select_keep keep paths =
     (if keep = ''first'' then (case paths of [] \<Rightarrow> Inl IndexError | p # _ \<Rightarrow> Inr p)
      else if keep = ''last'' then (if paths = [] then Inl IndexError else Inr (last paths))
      else if keep = ''shortest_path'' then py_min_len paths
      else if keep = ''longest_path'' then py_max_len paths
      else Inl (ValueError (''Invalid keep strategy: '' @ keep)))"

text \<open>
  The state of a call: the file system, the list \<open>deleted\<close> built so far, the lines
  printed, and the calls of \<open>os.remove\<close> made so far, each with its argument and
  what it did.
\<close>

datatype call_result = Succeeded | Failed os_error | Raised py_exception

record run =
  run_fs :: filesystem
  deleted :: "path list"
  stdout :: "output_line list"
  remove_calls :: "(path \<times> call_result) list"

text \<open>
  Lines 115 to 123: the inner loop over the paths of one group. An exception that line
  120 does not catch, or one that \<open>print\<close> raises in the handler of line 121, leaves
  the loop, with the state reached.
\<close>

fun delete_rest :: "path \<Rightarrow> bool \<Rightarrow> path list \<Rightarrow> run \<Rightarrow> py_exception option \<times> run" where
  "delete_rest to_keep dry_run [] s = (None, s)"
| "delete_rest to_keep dry_run (p # ps) s =
     (if p \<noteq> to_keep then
        (if \<not> dry_run then
           (case os_remove (run_fs s) p of
              Uncaught e \<Rightarrow>
                (Some e, s\<lparr>remove_calls := remove_calls s @ [(p, Raised e)]\<rparr>)
            | Caught e \<Rightarrow>
                (case print_raises (run_fs s) p e of
                   Some x \<Rightarrow>
                     (Some x, s\<lparr>remove_calls := remove_calls s @ [(p, Failed e)]\<rparr>)
                 | None \<Rightarrow>
                     delete_rest to_keep dry_run ps
                       (s\<lparr>stdout := stdout s @ [Failed_to_delete p e],
                          remove_calls := remove_calls s @ [(p, Failed e)]\<rparr>))
            | Removed fs' \<Rightarrow>
                delete_rest to_keep dry_run ps
                  (s\<lparr>run_fs := fs', deleted := deleted s @ [p],
                     remove_calls := remove_calls s @ [(p, Succeeded)]\<rparr>))
         else delete_rest to_keep dry_run ps (s\<lparr>deleted := deleted s @ [p]\<rparr>))
      else delete_rest to_keep dry_run ps s)"

text \<open>Lines 102 to 123: the body of the loop over \<open>duplicates.items()\<close>, for one group.\<close>

definition process_group ::
  "string \<Rightarrow> bool \<Rightarrow> path list \<Rightarrow> run \<Rightarrow> py_exception option \<times> run" where
  "process_group keep dry_run paths s =
     (case select_keep keep paths of
        Inl e \<Rightarrow> (Some e, s)
      | Inr to_keep \<Rightarrow> delete_rest to_keep dry_run paths s)"

text \<open>
  Line 101: the loop over the groups, in the dictionary's order. An exception leaves
  the loop; what was removed before stays removed.
\<close>

fun remove_groups ::
  "string \<Rightarrow> bool \<Rightarrow> (digest \<times> path list) list \<Rightarrow> run \<Rightarrow> py_exception option \<times> run" where
  "remove_groups keep dry_run [] s = (None, s)"
| "remove_groups keep dry_run ((file_hash, paths) # rest) s =
     (case process_group keep dry_run paths s of
        (Some e, s') \<Rightarrow> (Some e, s')
      | (None, s') \<Rightarrow> remove_groups keep dry_run rest s')"

record outcome =
  returned :: "py_exception + path list"
  final_fs :: filesystem
  printed :: "output_line list"

text \<open>Line 99: the state at the start of a call.\<close>

definition start :: "filesystem \<Rightarrow> run" where
  "start fs = \<lparr>run_fs = fs, deleted = [], stdout = [], remove_calls = []\<rparr>"

definition remove_duplicates ::
  "filesystem \<Rightarrow> (digest \<times> path list) list \<Rightarrow> string \<Rightarrow> bool \<Rightarrow> outcome" where
  "remove_duplicates fs duplicates keep dry_run =
     (case remove_groups keep dry_run duplicates (start fs) of
        (Some e, s) \<Rightarrow> \<lparr>returned = Inl e, final_fs = run_fs s, printed = stdout s\<rparr>
      | (None, s) \<Rightarrow> \<lparr>returned = Inr (deleted s), final_fs = run_fs s, printed = stdout s\<rparr>)"

text \<open>The calls of \<open>os.remove\<close> that a call of \<open>remove_duplicates\<close> makes, in order.\<close>

definition os_remove_calls ::
  "filesystem \<Rightarrow> (digest \<times> path list) list \<Rightarrow> string \<Rightarrow> bool \<Rightarrow> (path \<times> call_result) list" where
  "os_remove_calls fs duplicates keep dry_run =
     remove_calls (snd (remove_groups keep dry_run duplicates (start fs)))"

text \<open>
  A call that may leave out the keyword arguments: \<open>keep='first'\<close>, \<open>dry_run=True\<close>
  (line 87).
\<close>

definition remove_duplicates_call ::
  "filesystem \<Rightarrow> (digest \<times> path list) list \<Rightarrow> string option \<Rightarrow> bool option \<Rightarrow> outcome" where
  "remove_duplicates_call fs duplicates keep dry_run =
     remove_duplicates fs duplicates
       (case keep of None \<Rightarrow> ''first'' | Some k \<Rightarrow> k)
       (case dry_run of None \<Rightarrow> True | Some d \<Rightarrow> d)"

text \<open>The paths of a group other than the one kept.\<close>

definition candidates :: "string \<Rightarrow> path list \<Rightarrow> path list" where
  "candidates keep paths =
     (case select_keep keep paths of Inl e \<Rightarrow> [] | Inr k \<Rightarrow> filter (\<lambda>p. p \<noteq> k) paths)"





text \<open>
  The state \<open>s'\<close> continues \<open>s\<close>: the list \<open>deleted\<close>, the lines printed and the
  calls of \<open>os.remove\<close> have grown, by paths of \<open>X\<close> only.
\<close>

definition extends_by :: "path set \<Rightarrow> run \<Rightarrow> run \<Rightarrow> bool" where
  "extends_by X s s' \<longleftrightarrow>
     (\<exists>new out cs. deleted s' = deleted s @ new \<and> stdout s' = stdout s @ out \<and>
        remove_calls s' = remove_calls s @ cs \<and>
        set new \<subseteq> X \<and> failed_path ` set out \<subseteq> X \<and> fst ` set cs \<subseteq> X)"


section \<open>Example data\<close>

text \<open>
  The effect of a removal in the examples: every spelling of the removed name
  disappears, a link whose target is the removed name dangles, the other paths are
  untouched. \<open>name_of\<close> gives the directory entry a spelling denotes, \<open>link_to\<close>
  the directory entry a symbolic link points to.
\<close>

definition dangling :: "node \<Rightarrow> node" where
  "dangling n = n\<lparr>ftype := Dangling, stat_size := Inl FileNotFoundError,
                   read_bytes := Inl FileNotFoundError\<rparr>"

definition unlink_name ::
  "(path \<Rightarrow> path) \<Rightarrow> (path \<rightharpoonup> path) \<Rightarrow> path \<Rightarrow> (path \<rightharpoonup> node) \<Rightarrow> (path \<rightharpoonup> node)" where
  "unlink_name name_of link_to p es =
     (\<lambda>q. if name_of q = name_of p then None
          else if link_to q = Some (name_of p) then map_option dangling (es q)
          else es q)"

definition plain_file :: node where
  "plain_file = \<lparr>is_symlink = False, ftype = RegularFile, is_file_raises = None,
                  stat_size = Inr 2000, read_bytes = Inr (replicate 2000 0x78),
                  unlink_denied = None\<rparr>"

definition locked_file :: node where
  "locked_file = plain_file\<lparr>unlink_denied := Some PermissionError\<rparr>"

definition example_fs :: filesystem where
  "example_fs =
     \<lparr>entries = [''docs/a.txt'' \<mapsto> plain_file, ''docs/b.txt'' \<mapsto> plain_file, ''c.txt'' \<mapsto> locked_file],
      tree = (\<lambda>d. NoSuchDirectory),
      unlink_effect = unlink_name (\<lambda>q. q) Map.empty,
      fsencode_raises = (\<lambda>p. None),
      print_raises = (\<lambda>p e. None)\<rparr>"

definition example_dups :: "(digest \<times> path list) list" where
  "example_dups = [(''d1'', [''docs/a.txt'', ''docs/b.txt'', ''c.txt'', ''gone.txt''])]"

text \<open>A mapping whose two groups hold the same two paths, in opposite orders.\<close>

definition overlap_dups :: "(digest \<times> path list) list" where
  "overlap_dups = [(''h1'', [''docs/a.txt'', ''docs/b.txt'']), (''h2'', [''docs/b.txt'', ''docs/a.txt''])]"




text \<open>A file and a second spelling of its name, in one group.\<close>

definition alias_fs :: filesystem where
  "alias_fs =
     \<lparr>entries = [''t/k'' \<mapsto> plain_file, ''t/./k'' \<mapsto> plain_file],
      tree = (\<lambda>d. NoSuchDirectory),
      unlink_effect = unlink_name (\<lambda>q. if q = ''t/./k'' then ''t/k'' else q) Map.empty,
      fsencode_raises = (\<lambda>p. None),
      print_raises = (\<lambda>p e. None)\<rparr>"

definition alias_dups :: "(digest \<times> path list) list" where
  "alias_dups = [(''h1'', [''t/k'', ''t/./k''])]"

text \<open>
  A file name that is not UTF-8 (it holds the byte \<open>E9\<close>), which Python keeps as a
  \<open>str\<close> with a surrogate: \<open>os.remove\<close> accepts it, a \<open>sys.stdout\<close> encoded in
  UTF-8 does not.
\<close>

definition latin1_path :: path where
  "latin1_path = ''caf'' @ [CHR 0xE9] @ ''.txt''"

definition utf8_stdout_fs :: filesystem where
  "utf8_stdout_fs =
     example_fs\<lparr>print_raises :=
       (\<lambda>p e. if CHR 0xE9 \<in> set p then Some (UnicodeEncodeError ''surrogates not allowed'')
              else None)\<rparr>"

definition latin1_dups :: "(digest \<times> path list) list" where
  "latin1_dups = [(''h1'', [''docs/a.txt'', latin1_path, ''docs/b.txt''])]"

text \<open>
  Two 128-byte messages with the same MD5 digest (Wang and Yu, 2005), as two files.
\<close>

definition collision_a :: "byte list" where
  "collision_a =
     [0xd1, 0x31, 0xdd, 0x02, 0xc5, 0xe6, 0xee, 0xc4, 0x69, 0x3d, 0x9a, 0x06, 0x98, 0xaf, 0xf9, 0x5c,
      0x2f, 0xca, 0xb5, 0x87, 0x12, 0x46, 0x7e, 0xab, 0x40, 0x04, 0x58, 0x3e, 0xb8, 0xfb, 0x7f, 0x89,
      0x55, 0xad, 0x34, 0x06, 0x09, 0xf4, 0xb3, 0x02, 0x83, 0xe4, 0x88, 0x83, 0x25, 0x71, 0x41, 0x5a,
      0x08, 0x51, 0x25, 0xe8, 0xf7, 0xcd, 0xc9, 0x9f, 0xd9, 0x1d, 0xbd, 0xf2, 0x80, 0x37, 0x3c, 0x5b,
      0xd8, 0x82, 0x3e, 0x31, 0x56, 0x34, 0x8f, 0x5b, 0xae, 0x6d, 0xac, 0xd4, 0x36, 0xc9, 0x19, 0xc6,
      0xdd, 0x53, 0xe2, 0xb4, 0x87, 0xda, 0x03, 0xfd, 0x02, 0x39, 0x63, 0x06, 0xd2, 0x48, 0xcd, 0xa0,
      0xe9, 0x9f, 0x33, 0x42, 0x0f, 0x57, 0x7e, 0xe8, 0xce, 0x54, 0xb6, 0x70, 0x80, 0xa8, 0x0d, 0x1e,
      0xc6, 0x98, 0x21, 0xbc, 0xb6, 0xa8, 0x83, 0x93, 0x96, 0xf9, 0x65, 0x2b, 0x6f, 0xf7, 0x2a, 0x70]"

definition collision_b :: "byte list" where
  "collision_b =
     [0xd1, 0x31, 0xdd, 0x02, 0xc5, 0xe6, 0xee, 0xc4, 0x69, 0x3d, 0x9a, 0x06, 0x98, 0xaf, 0xf9, 0x5c,
      0x2f, 0xca, 0xb5, 0x07, 0x12, 0x46, 0x7e, 0xab, 0x40, 0x04, 0x58, 0x3e, 0xb8, 0xfb, 0x7f, 0x89,
      0x55, 0xad, 0x34, 0x06, 0x09, 0xf4, 0xb3, 0x02, 0x83, 0xe4, 0x88, 0x83, 0x25, 0xf1, 0x41, 0x5a,
      0x08, 0x51, 0x25, 0xe8, 0xf7, 0xcd, 0xc9, 0x9f, 0xd9, 0x1d, 0xbd, 0x72, 0x80, 0x37, 0x3c, 0x5b,
      0xd8, 0x82, 0x3e, 0x31, 0x56, 0x34, 0x8f, 0x5b, 0xae, 0x6d, 0xac, 0xd4, 0x36, 0xc9, 0x19, 0xc6,
      0xdd, 0x53, 0xe2, 0x34, 0x87, 0xda, 0x03, 0xfd, 0x02, 0x39, 0x63, 0x06, 0xd2, 0x48, 0xcd, 0xa0,
      0xe9, 0x9f, 0x33, 0x42, 0x0f, 0x57, 0x7e, 0xe8, 0xce, 0x54, 0xb6, 0x70, 0x80, 0x28, 0x0d, 0x1e,
      0xc6, 0x98, 0x21, 0xbc, 0xb6, 0xa8, 0x83, 0x93, 0x96, 0xf9, 0x65, 0xab, 0x6f, 0xf7, 0x2a, 0x70]"

definition collision_fs :: filesystem where
  "collision_fs =
     \<lparr>entries =
        [''inbox/a.bin'' \<mapsto> plain_file\<lparr>stat_size := Inr 128, read_bytes := Inr collision_a\<rparr>,
         ''inbox/b.bin'' \<mapsto> plain_file\<lparr>stat_size := Inr 128, read_bytes := Inr collision_b\<rparr>],
      tree = (\<lambda>d. if d = ''inbox'' then Listing [''inbox/a.bin'', ''inbox/b.bin'']
                  else NoSuchDirectory),
      unlink_effect = unlink_name (\<lambda>q. q) Map.empty,
      fsencode_raises = (\<lambda>p. None),
      print_raises = (\<lambda>p e. None)\<rparr>"

text \<open>
  A directory with a regular file, a link to it, a subdirectory, a small file and a
  file that cannot be opened.
\<close>

definition directory_node :: node where
  "directory_node = \<lparr>is_symlink = False, ftype = DirectoryNode, is_file_raises = None,
                      stat_size = Inr 4096, read_bytes = Inl IsADirectoryError,
                      unlink_denied = None\<rparr>"

definition symlink_fs :: filesystem where
  "symlink_fs =
     \<lparr>entries =
        [''data/a.bin'' \<mapsto> plain_file,
         ''data/link'' \<mapsto> plain_file\<lparr>is_symlink := True\<rparr>,
         ''data/sub'' \<mapsto> directory_node,
         ''data/small.txt'' \<mapsto> plain_file\<lparr>stat_size := Inr 500, read_bytes := Inr (replicate 500 0x78)\<rparr>,
         ''data/secret.bin'' \<mapsto> plain_file\<lparr>read_bytes := Inl PermissionError\<rparr>],
      tree = (\<lambda>d. if d = ''data''
                  then Listing [''data/a.bin'', ''data/link'', ''data/sub'', ''data/small.txt'',
                                ''data/secret.bin'']
                  else NoSuchDirectory),
      unlink_effect = unlink_name (\<lambda>q. q) [''data/link'' \<mapsto> ''data/a.bin''],
      fsencode_raises = (\<lambda>p. None),
      print_raises = (\<lambda>p e. None)\<rparr>"

text \<open>
  Files of \<open>/proc\<close> and \<open>/sys\<close>: regular files whose \<open>stat\<close> size (0 and 4096)
  is not the length of what a read returns.
\<close>

definition pseudo_file :: "nat \<Rightarrow> byte list \<Rightarrow> node" where
  "pseudo_file st_size content =
     \<lparr>is_symlink = False, ftype = RegularFile, is_file_raises = None,
      stat_size = Inr st_size, read_bytes = Inr content, unlink_denied = Some PermissionError\<rparr>"

definition pseudo_fs :: filesystem where
  "pseudo_fs =
     \<lparr>entries =
        [''/proc/sys/net/ipv4/ip_forward'' \<mapsto> pseudo_file 0 [0x30, 0x0a],
         ''/proc/sys/vm/overcommit_memory'' \<mapsto> pseudo_file 0 [0x30, 0x0a],
         ''/sys/class/net/lo/dormant'' \<mapsto> pseudo_file 4096 [0x30, 0x0a],
         ''/sys/class/net/lo/carrier'' \<mapsto> pseudo_file 4096 [0x31, 0x0a]],
      tree = (\<lambda>d. if d = ''/''
                  then Listing [''/proc/sys/net/ipv4/ip_forward'', ''/proc/sys/vm/overcommit_memory'',
                                ''/sys/class/net/lo/dormant'', ''/sys/class/net/lo/carrier'']
                  else NoSuchDirectory),
      unlink_effect = unlink_name (\<lambda>q. q) Map.empty,
      fsencode_raises = (\<lambda>p. None),
      print_raises = (\<lambda>p e. None)\<rparr>"

section \<open>Properties of \<open>remove_duplicates\<close>\<close>

subsection \<open>Selecting the path to keep\<close>

lemma min_len_from_mem: "min_len_from best ps \<in> set (best # ps)"
  by (induction ps arbitrary: best) auto

lemma max_len_from_mem: "max_len_from best ps \<in> set (best # ps)"
  by (induction ps arbitrary: best) auto

lemma select_keep_returns:
  assumes "keep \<in> set policies" and "paths \<noteq> []"
  shows "\<exists>k. select_keep keep paths = Inr k \<and> k \<in> set paths"
proof -
  obtain p ps where ps: "paths = p # ps" using assms(2) by (cases paths) auto
  have "min_len_from p ps \<in> set paths" "max_len_from p ps \<in> set paths"
    using min_len_from_mem [of p ps] max_len_from_mem [of p ps] ps by simp_all
  then show ?thesis
    using ps assms(1) by (auto simp: select_keep_def py_min_len_def py_max_len_def policies_def)
qed

lemma select_keep_invalid:
  "keep \<notin> set policies \<Longrightarrow> select_keep keep paths = Inl (ValueError (''Invalid keep strategy: '' @ keep))"
  by (simp add: select_keep_def policies_def)

lemma select_keep_mem: "select_keep keep paths = Inr k \<Longrightarrow> k \<in> set paths"
  using min_len_from_mem max_len_from_mem
  by (auto simp: select_keep_def py_min_len_def py_max_len_def split: if_splits list.splits)

lemma candidates_Inr: "select_keep keep paths = Inr k \<Longrightarrow> candidates keep paths = filter (\<lambda>p. p \<noteq> k) paths"
  by (simp add: candidates_def)

lemma extends_by_refl: "extends_by X s s"
  by (simp add: extends_by_def)

subsection \<open>How the state of a call grows\<close>

lemma extends_by_trans:
  assumes "extends_by X s s1" and "extends_by X s1 s2"
  shows "extends_by X s s2"
  using assms(1) [unfolded extends_by_def]
proof (elim exE conjE)
  fix new out cs
  assume a: "deleted s1 = deleted s @ new" "stdout s1 = stdout s @ out"
    "remove_calls s1 = remove_calls s @ cs" "set new \<subseteq> X" "failed_path ` set out \<subseteq> X"
    "fst ` set cs \<subseteq> X"
  from assms(2) [unfolded extends_by_def] show ?thesis
  proof (elim exE conjE)
    fix new' out' cs'
    assume b: "deleted s2 = deleted s1 @ new'" "stdout s2 = stdout s1 @ out'"
      "remove_calls s2 = remove_calls s1 @ cs'" "set new' \<subseteq> X" "failed_path ` set out' \<subseteq> X"
      "fst ` set cs' \<subseteq> X"
    have "deleted s2 = deleted s @ (new @ new') \<and> stdout s2 = stdout s @ (out @ out') \<and>
      remove_calls s2 = remove_calls s @ (cs @ cs') \<and>
      set (new @ new') \<subseteq> X \<and> failed_path ` set (out @ out') \<subseteq> X \<and> fst ` set (cs @ cs') \<subseteq> X"
      using a b by (simp add: image_Un)
    then show ?thesis
      unfolding extends_by_def
      by (intro exI [of _ "new @ new'"] exI [of _ "out @ out'"] exI [of _ "cs @ cs'"])
  qed
qed

lemma extends_by_mono:
  assumes "extends_by X s s'" and "X \<subseteq> Y"
  shows "extends_by Y s s'"
  using assms(1) [unfolded extends_by_def]
proof (elim exE conjE)
  fix new out cs
  assume a: "deleted s' = deleted s @ new" "stdout s' = stdout s @ out"
    "remove_calls s' = remove_calls s @ cs" "set new \<subseteq> X" "failed_path ` set out \<subseteq> X"
    "fst ` set cs \<subseteq> X"
  have "deleted s' = deleted s @ new \<and> stdout s' = stdout s @ out \<and>
    remove_calls s' = remove_calls s @ cs \<and>
    set new \<subseteq> Y \<and> failed_path ` set out \<subseteq> Y \<and> fst ` set cs \<subseteq> Y"
    using a assms(2) by (simp add: subset_trans)
  then show ?thesis
    unfolding extends_by_def by (intro exI [of _ new] exI [of _ out] exI [of _ cs])
qed

lemma extends_by_deleted: "p \<in> X \<Longrightarrow> extends_by X s (s\<lparr>deleted := deleted s @ [p]\<rparr>)"
  unfolding extends_by_def
  by (rule exI [of _ "[p]"], rule exI [of _ "[]"], rule exI [of _ "[]"]) simp

lemma extends_by_call:
  "p \<in> X \<Longrightarrow> extends_by X s (s\<lparr>remove_calls := remove_calls s @ [(p, r)]\<rparr>)"
  unfolding extends_by_def
  by (rule exI [of _ "[]"], rule exI [of _ "[]"], rule exI [of _ "[(p, r)]"]) simp

lemma extends_by_failed:
  "p \<in> X \<Longrightarrow> extends_by X s (s\<lparr>stdout := stdout s @ [Failed_to_delete p e],
      remove_calls := remove_calls s @ [(p, Failed e)]\<rparr>)"
  unfolding extends_by_def
  by (rule exI [of _ "[]"], rule exI [of _ "[Failed_to_delete p e]"], rule exI [of _ "[(p, Failed e)]"]) simp

lemma extends_by_removed:
  "p \<in> X \<Longrightarrow> extends_by X s (s\<lparr>run_fs := fs', deleted := deleted s @ [p],
      remove_calls := remove_calls s @ [(p, Succeeded)]\<rparr>)"
  unfolding extends_by_def
  by (rule exI [of _ "[p]"], rule exI [of _ "[]"], rule exI [of _ "[(p, Succeeded)]"]) simp

lemma delete_rest_extends:
  "delete_rest k dry ps s = (e, s') \<Longrightarrow> extends_by (set ps - {k}) s s'"
proof (induction ps arbitrary: s)
  case Nil
  then show ?case by (simp add: extends_by_refl)
next
  case (Cons p ps)
  have sub: "set ps - {k} \<subseteq> set (p # ps) - {k}" by auto
  show ?case
  proof (cases "p = k")
    case True
    then have "delete_rest k dry ps s = (e, s')" using Cons.prems by simp
    from Cons.IH [OF this] show ?thesis by (rule extends_by_mono) (rule sub)
  next
    case False
    then have pin: "p \<in> set (p # ps) - {k}" by simp
    show ?thesis
    proof (cases dry)
      case True
      then have "delete_rest k dry ps (s\<lparr>deleted := deleted s @ [p]\<rparr>) = (e, s')"
        using Cons.prems False by simp
      from Cons.IH [OF this] have "extends_by (set (p # ps) - {k}) (s\<lparr>deleted := deleted s @ [p]\<rparr>) s'"
        by (rule extends_by_mono) (rule sub)
      with extends_by_deleted [OF pin] show ?thesis by (rule extends_by_trans)
    next
      case real: False
      show ?thesis
      proof (cases "os_remove (run_fs s) p")
        case (Uncaught x)
        then have "s' = s\<lparr>remove_calls := remove_calls s @ [(p, Raised x)]\<rparr>"
          using Cons.prems False real by simp
        then show ?thesis using extends_by_call [OF pin] by simp
      next
        case (Caught x)
        show ?thesis
        proof (cases "print_raises (run_fs s) p x")
          case (Some y)
          then have "s' = s\<lparr>remove_calls := remove_calls s @ [(p, Failed x)]\<rparr>"
            using Caught Cons.prems False real by simp
          then show ?thesis using extends_by_call [OF pin] by simp
        next
          case None
          then have "delete_rest k dry ps (s\<lparr>stdout := stdout s @ [Failed_to_delete p x],
              remove_calls := remove_calls s @ [(p, Failed x)]\<rparr>) = (e, s')"
            using Caught Cons.prems False real by simp
          from Cons.IH [OF this] have "extends_by (set (p # ps) - {k})
              (s\<lparr>stdout := stdout s @ [Failed_to_delete p x],
                 remove_calls := remove_calls s @ [(p, Failed x)]\<rparr>) s'"
            by (rule extends_by_mono) (rule sub)
          with extends_by_failed [OF pin] show ?thesis by (rule extends_by_trans)
        qed
      next
        case (Removed fs')
        then have "delete_rest k dry ps (s\<lparr>run_fs := fs', deleted := deleted s @ [p],
            remove_calls := remove_calls s @ [(p, Succeeded)]\<rparr>) = (e, s')"
          using Cons.prems False real by simp
        from Cons.IH [OF this] have "extends_by (set (p # ps) - {k})
            (s\<lparr>run_fs := fs', deleted := deleted s @ [p],
               remove_calls := remove_calls s @ [(p, Succeeded)]\<rparr>) s'"
          by (rule extends_by_mono) (rule sub)
        with extends_by_removed [OF pin] show ?thesis by (rule extends_by_trans)
      qed
    qed
  qed
qed

lemma delete_rest_dry:
  "delete_rest k True ps s = (None, s\<lparr>deleted := deleted s @ filter (\<lambda>p. p \<noteq> k) ps\<rparr>)"
  by (induction ps arbitrary: s) simp_all

lemma process_group_Inr:
  "select_keep keep paths = Inr k \<Longrightarrow> process_group keep dry paths s = delete_rest k dry paths s"
  by (simp add: process_group_def)

lemma remove_groups_invalid:
  "keep \<notin> set policies \<Longrightarrow>
   remove_groups keep dry dups s =
     (if dups = [] then None else Some (ValueError (''Invalid keep strategy: '' @ keep)), s)"
proof (cases dups)
  case Nil
  then show ?thesis by simp
next
  case (Cons g rest)
  assume "keep \<notin> set policies"
  then have "process_group keep dry (snd g) s = (Some (ValueError (''Invalid keep strategy: '' @ keep)), s)"
    by (simp add: process_group_def select_keep_invalid)
  then show ?thesis using Cons by (cases g) simp
qed

subsection \<open>Dry runs\<close>

lemma remove_groups_dry_frame:
  "run_fs (snd (remove_groups keep True dups s)) = run_fs s \<and>
   stdout (snd (remove_groups keep True dups s)) = stdout s \<and>
   remove_calls (snd (remove_groups keep True dups s)) = remove_calls s"
proof (induction dups arbitrary: s)
  case Nil
  then show ?case by simp
next
  case (Cons g dups)
  obtain h paths where g: "g = (h, paths)" by (cases g)
  show ?case
  proof (cases "select_keep keep paths")
    case (Inl e)
    then show ?thesis by (simp add: g process_group_def)
  next
    case (Inr k)
    then show ?thesis
      using Cons [of "s\<lparr>deleted := deleted s @ filter (\<lambda>p. p \<noteq> k) paths\<rparr>"]
      by (simp add: g process_group_def delete_rest_dry)
  qed
qed

lemma remove_groups_dry_result:
  assumes "keep \<in> set policies" and "\<forall>(h, ps) \<in> set dups. ps \<noteq> []"
  shows "remove_groups keep True dups s =
     (None, s\<lparr>deleted := deleted s @ concat (map (\<lambda>(h, ps). candidates keep ps) dups)\<rparr>)"
  using assms(2)
proof (induction dups arbitrary: s)
  case Nil
  then show ?case by simp
next
  case (Cons g dups)
  obtain h paths where g: "g = (h, paths)" by (cases g)
  from Cons.prems g have ne: "paths \<noteq> []" and rest: "\<forall>(h, ps) \<in> set dups. ps \<noteq> []" by auto
  from select_keep_returns [OF assms(1) ne] obtain k where k: "select_keep keep paths = Inr k" by blast
  show ?case
    using Cons.IH [OF rest, of "s\<lparr>deleted := deleted s @ filter (\<lambda>p. p \<noteq> k) paths\<rparr>"] k
    by (simp add: g process_group_Inr delete_rest_dry candidates_Inr)
qed

lemma remove_groups_dry_if_returns:
  "remove_groups keep True dups s = (None, s') \<Longrightarrow>
   deleted s' = deleted s @ concat (map (\<lambda>(h, ps). candidates keep ps) dups)"
proof (induction dups arbitrary: s)
  case Nil
  then show ?case by simp
next
  case (Cons g dups)
  obtain h paths where g: "g = (h, paths)" by (cases g)
  show ?case
  proof (cases "select_keep keep paths")
    case (Inl e)
    then show ?thesis using Cons.prems by (simp add: g process_group_def)
  next
    case (Inr k)
    then show ?thesis
      using Cons.IH [of "s\<lparr>deleted := deleted s @ filter (\<lambda>p. p \<noteq> k) paths\<rparr>"] Cons.prems
      by (simp add: g process_group_Inr delete_rest_dry candidates_Inr)
  qed
qed

lemma remove_duplicates_unfold:
  "remove_groups keep dry dups (start fs) = (e, s) \<Longrightarrow>
   remove_duplicates fs dups keep dry =
     \<lparr>returned = (case e of Some x \<Rightarrow> Inl x | None \<Rightarrow> Inr (deleted s)),
      final_fs = run_fs s, printed = stdout s\<rparr> \<and>
   os_remove_calls fs dups keep dry = remove_calls s"
  by (cases e) (simp_all add: remove_duplicates_def os_remove_calls_def)

lemma dry_run_total:
  "final_fs (remove_duplicates fs dups keep True) = fs \<and>
   printed (remove_duplicates fs dups keep True) = []"
proof -
  obtain e s where r: "remove_groups keep True dups (start fs) = (e, s)"
    by (cases "remove_groups keep True dups (start fs)")
  from remove_groups_dry_frame [of keep dups "start fs"] r
  have "run_fs s = fs" "stdout s = []" by (simp_all add: start_def)
  then show ?thesis using remove_duplicates_unfold [OF r] by simp
qed

lemma dry_run_no_calls: "os_remove_calls fs dups keep True = []"
  using remove_groups_dry_frame [of keep dups "start fs"]
  by (simp add: os_remove_calls_def start_def)

lemma dry_run_returned:
  assumes "keep \<in> set policies" and "\<forall>(h, ps) \<in> set dups. ps \<noteq> []"
  shows "returned (remove_duplicates fs dups keep True) =
     Inr (concat (map (\<lambda>(h, ps). candidates keep ps) dups))"
  using remove_duplicates_unfold [OF remove_groups_dry_result [OF assms, of "start fs"]]
  by (simp add: start_def)

lemma dry_run_if_returns:
  assumes "returned (remove_duplicates fs dups keep True) = Inr ds"
  shows "ds = concat (map (\<lambda>(h, ps). candidates keep ps) dups)"
proof -
  obtain e s where r: "remove_groups keep True dups (start fs) = (e, s)"
    by (cases "remove_groups keep True dups (start fs)")
  from remove_duplicates_unfold [OF r] assms have e: "e = None" and ds: "ds = deleted s"
    by (cases e; simp)+
  from remove_groups_dry_if_returns [OF r [unfolded e]] ds show ?thesis by (simp add: start_def)
qed

subsection \<open>Real runs\<close>

lemma os_remove_Removed:
  "os_remove fs p = Removed fs' \<Longrightarrow>
   fs' = fs\<lparr>entries := (unlink_effect fs p (entries fs))(p := None)\<rparr>"
  by (auto simp: os_remove_def split: if_splits option.splits)


lemma os_remove_gone: "os_remove fs p = Removed fs' \<Longrightarrow> entries fs' p = None \<and> entries fs p \<noteq> None"
  by (auto simp: os_remove_def split: if_splits option.splits)


lemma delete_rest_frame:
  assumes "\<forall>p \<in> set ps. p \<noteq> k \<longrightarrow> p \<noteq> q \<and> (\<forall>es. unlink_effect (run_fs s) p es q = es q)"
  shows "entries (run_fs (snd (delete_rest k dry ps s))) q = entries (run_fs s) q \<and>
     unlink_effect (run_fs (snd (delete_rest k dry ps s))) = unlink_effect (run_fs s) \<and>
     tree (run_fs (snd (delete_rest k dry ps s))) = tree (run_fs s)"
  using assms
proof (induction ps arbitrary: s)
  case Nil
  then show ?case by simp
next
  case (Cons p ps)
  from Cons.prems have rest:
    "\<forall>p \<in> set ps. p \<noteq> k \<longrightarrow> p \<noteq> q \<and> (\<forall>es. unlink_effect (run_fs s) p es q = es q)"
    by simp
  show ?case
  proof (cases "p = k \<or> dry")
    case True
    then show ?thesis using Cons.IH [OF rest] Cons.IH [of "s\<lparr>deleted := deleted s @ [p]\<rparr>"] rest
      by auto
  next
    case False
    then have pk: "p \<noteq> k" and real: "\<not> dry" by simp_all
    from Cons.prems pk have pq: "p \<noteq> q" and eff: "\<forall>es. unlink_effect (run_fs s) p es q = es q"
      by simp_all
    show ?thesis
    proof (cases "os_remove (run_fs s) p")
      case (Uncaught x)
      then show ?thesis using pk real by simp
    next
      case (Caught x)
      then show ?thesis
        using pk real rest
          Cons.IH [of "s\<lparr>stdout := stdout s @ [Failed_to_delete p x],
            remove_calls := remove_calls s @ [(p, Failed x)]\<rparr>"]
        by (cases "print_raises (run_fs s) p x") simp_all
    next
      case (Removed fs')
      define s1 where "s1 = s\<lparr>run_fs := fs', deleted := deleted s @ [p],
            remove_calls := remove_calls s @ [(p, Succeeded)]\<rparr>"
      have fs': "fs' = (run_fs s)\<lparr>entries := (unlink_effect (run_fs s) p (entries (run_fs s)))(p := None)\<rparr>"
        using Removed by (rule os_remove_Removed)
      have e1: "entries (run_fs s1) q = entries (run_fs s) q"
        and u1: "unlink_effect (run_fs s1) = unlink_effect (run_fs s)"
        and t1: "tree (run_fs s1) = tree (run_fs s)"
        using pq eff by (simp_all add: s1_def fs')
      have rest1: "\<forall>p \<in> set ps. p \<noteq> k \<longrightarrow> p \<noteq> q \<and> (\<forall>es. unlink_effect (run_fs s1) p es q = es q)"
        using rest u1 by simp
      have step: "delete_rest k dry (p # ps) s = delete_rest k dry ps s1"
        using Removed pk real by (simp add: s1_def)
      show ?thesis unfolding step using Cons.IH [OF rest1] e1 u1 t1 by simp
    qed
  qed
qed







lemma remove_groups_extends:
  assumes "\<forall>(h, ps) \<in> set dups. k \<in> set ps \<longrightarrow> select_keep keep ps = Inr k"
  shows "extends_by (- {k}) s (snd (remove_groups keep dry dups s))"
  using assms
proof (induction dups arbitrary: s)
  case Nil
  then show ?case by (simp add: extends_by_refl)
next
  case (Cons g dups)
  obtain h paths where g: "g = (h, paths)" by (cases g)
  from Cons.prems g have here: "k \<in> set paths \<longrightarrow> select_keep keep paths = Inr k"
    and rest: "\<forall>(h, ps) \<in> set dups. k \<in> set ps \<longrightarrow> select_keep keep ps = Inr k" by auto
  show ?case
  proof (cases "select_keep keep paths")
    case (Inl x)
    then show ?thesis by (simp add: g process_group_def extends_by_refl)
  next
    case (Inr k')
    obtain e s1 where d: "delete_rest k' dry paths s = (e, s1)" by (cases "delete_rest k' dry paths s")
    have "set paths - {k'} \<subseteq> - {k}" using here Inr by auto
    with delete_rest_extends [OF d] have one: "extends_by (- {k}) s s1" by (rule extends_by_mono)
    show ?thesis
    proof (cases e)
      case (Some x)
      then show ?thesis using one d Inr by (simp add: g process_group_Inr)
    next
      case None
      have "extends_by (- {k}) s1 (snd (remove_groups keep dry dups s1))" using rest by (rule Cons.IH)
      with one have "extends_by (- {k}) s (snd (remove_groups keep dry dups s1))"
        by (rule extends_by_trans)
      then show ?thesis using None d Inr by (simp add: g process_group_Inr)
    qed
  qed
qed

lemma remove_groups_frame:
  assumes "\<forall>(h, ps) \<in> set dups. k \<in> set ps \<longrightarrow> select_keep keep ps = Inr k"
    and "\<forall>(h, ps) \<in> set dups. \<forall>p \<in> set ps. p \<noteq> k \<longrightarrow> (\<forall>es. unlink_effect (run_fs s) p es k = es k)"
  shows "entries (run_fs (snd (remove_groups keep dry dups s))) k = entries (run_fs s) k \<and>
     unlink_effect (run_fs (snd (remove_groups keep dry dups s))) = unlink_effect (run_fs s)"
  using assms
proof (induction dups arbitrary: s)
  case Nil
  then show ?case by simp
next
  case (Cons g dups)
  obtain h paths where g: "g = (h, paths)" by (cases g)
  from Cons.prems(1) g have here: "k \<in> set paths \<longrightarrow> select_keep keep paths = Inr k"
    and rest: "\<forall>(h, ps) \<in> set dups. k \<in> set ps \<longrightarrow> select_keep keep ps = Inr k" by auto
  from Cons.prems(2) g
  have fhere: "\<forall>p \<in> set paths. p \<noteq> k \<longrightarrow> (\<forall>es. unlink_effect (run_fs s) p es k = es k)"
    and frest: "\<forall>(h, ps) \<in> set dups. \<forall>p \<in> set ps. p \<noteq> k \<longrightarrow>
        (\<forall>es. unlink_effect (run_fs s) p es k = es k)"
    by auto
  show ?case
  proof (cases "select_keep keep paths")
    case (Inl x)
    then show ?thesis by (simp add: g process_group_def)
  next
    case (Inr k')
    obtain e s1 where d: "delete_rest k' dry paths s = (e, s1)" by (cases "delete_rest k' dry paths s")
    have "\<forall>p \<in> set paths. p \<noteq> k' \<longrightarrow> p \<noteq> k \<and> (\<forall>es. unlink_effect (run_fs s) p es k = es k)"
      using here Inr fhere by auto
    from delete_rest_frame [OF this, of dry] d
    have e1: "entries (run_fs s1) k = entries (run_fs s) k"
      and u1: "unlink_effect (run_fs s1) = unlink_effect (run_fs s)"
      by simp_all
    show ?thesis
    proof (cases e)
      case (Some x)
      then show ?thesis using e1 u1 d Inr by (simp add: g process_group_Inr)
    next
      case None
      have "\<forall>(h, ps) \<in> set dups. \<forall>p \<in> set ps. p \<noteq> k \<longrightarrow>
          (\<forall>es. unlink_effect (run_fs s1) p es k = es k)"
        using frest u1 by simp
      from Cons.IH [OF rest this] e1 u1
      show ?thesis using None d Inr by (simp add: g process_group_Inr)
    qed
  qed
qed



lemma remove_duplicates_keep:
  assumes "\<forall>(h, ps) \<in> set dups. k \<in> set ps \<longrightarrow> select_keep keep ps = Inr k"
  shows "k \<notin> fst ` set (os_remove_calls fs dups keep dry) \<and>
     k \<notin> failed_path ` set (printed (remove_duplicates fs dups keep dry)) \<and>
     (\<forall>ds. returned (remove_duplicates fs dups keep dry) = Inr ds \<longrightarrow> k \<notin> set ds)"
proof -
  obtain e s where r: "remove_groups keep dry dups (start fs) = (e, s)"
    by (cases "remove_groups keep dry dups (start fs)")
  from remove_groups_extends [OF assms, where s = "start fs" and dry = dry] r
  have "extends_by (- {k}) (start fs) s" by simp
  then have "k \<notin> set (deleted s) \<and> k \<notin> failed_path ` set (stdout s) \<and> k \<notin> fst ` set (remove_calls s)"
    unfolding extends_by_def
  proof (elim exE conjE)
    fix new out cs
    assume "deleted s = deleted (start fs) @ new" "stdout s = stdout (start fs) @ out"
      "remove_calls s = remove_calls (start fs) @ cs"
      "set new \<subseteq> - {k}" "failed_path ` set out \<subseteq> - {k}" "fst ` set cs \<subseteq> - {k}"
    then show ?thesis by (auto simp: start_def)
  qed
  then show ?thesis using remove_duplicates_unfold [OF r] by (cases e) auto
qed

lemma remove_duplicates_frame:
  assumes "\<forall>(h, ps) \<in> set dups. k \<in> set ps \<longrightarrow> select_keep keep ps = Inr k"
    and "\<forall>(h, ps) \<in> set dups. \<forall>p \<in> set ps. p \<noteq> k \<longrightarrow> (\<forall>es. unlink_effect fs p es k = es k)"
  shows "entries (final_fs (remove_duplicates fs dups keep dry)) k = entries fs k"
proof -
  obtain e s where r: "remove_groups keep dry dups (start fs) = (e, s)"
    by (cases "remove_groups keep dry dups (start fs)")
  have "\<forall>(h, ps) \<in> set dups. \<forall>p \<in> set ps. p \<noteq> k \<longrightarrow>
      (\<forall>es. unlink_effect (run_fs (start fs)) p es k = es k)"
    using assms(2) by (simp add: start_def)
  from remove_groups_frame [OF assms(1) this, where dry = dry] r
  have "entries (run_fs s) k = entries fs k" by (simp add: start_def)
  then show ?thesis using remove_duplicates_unfold [OF r] by simp
qed

subsection \<open>Example runs\<close>

text \<open>The definitions that evaluating a run unfolds.\<close>

lemmas run_simps = remove_duplicates_def os_remove_calls_def start_def process_group_def
  select_keep_def py_min_len_def py_max_len_def os_remove_def path_converter_def unlink_name_def
  plain_file_def locked_file_def policies_def candidates_def

text \<open>Real runs and the dry run of the example mapping.\<close>

lemma example_real_run:
  "returned (remove_duplicates example_fs example_dups ''shortest_path'' False)
     = Inr [''docs/a.txt'', ''docs/b.txt'']"
  "printed (remove_duplicates example_fs example_dups ''shortest_path'' False)
     = [Failed_to_delete ''gone.txt'' FileNotFoundError]"
  "entries (final_fs (remove_duplicates example_fs example_dups ''shortest_path'' False)) ''c.txt''
     = Some locked_file"
  by (simp_all add: run_simps example_fs_def example_dups_def)



text \<open>Two groups with the same paths: the second group removes the path the first kept.\<close>

lemma overlap_run:
  "returned (remove_duplicates example_fs overlap_dups ''first'' False)
     = Inr [''docs/b.txt'', ''docs/a.txt'']"
  "entries (final_fs (remove_duplicates example_fs overlap_dups ''first'' False)) ''docs/a.txt'' = None"
  by (simp_all add: run_simps example_fs_def overlap_dups_def)

text \<open>Two spellings of one name: removing the second removes the file kept.\<close>

lemma alias_run:
  "returned (remove_duplicates alias_fs alias_dups ''first'' False) = Inr [''t/./k'']"
  "entries (final_fs (remove_duplicates alias_fs alias_dups ''first'' False)) ''t/k'' = None"
  by (simp_all add: run_simps alias_fs_def alias_dups_def)



text \<open>A failure line that cannot be printed: the exception of \<open>print\<close> leaves the loop.\<close>

lemma unprintable_run:
  "returned (remove_duplicates utf8_stdout_fs latin1_dups ''first'' False)
     = Inl (UnicodeEncodeError ''surrogates not allowed'')"
  "printed (remove_duplicates utf8_stdout_fs latin1_dups ''first'' False) = []"
  "os_remove_calls utf8_stdout_fs latin1_dups ''first'' False
     = [(latin1_path, Failed FileNotFoundError)]"
  "entries (final_fs (remove_duplicates utf8_stdout_fs latin1_dups ''first'' False)) ''docs/b.txt''
     = Some plain_file"
  by (simp_all add: run_simps example_fs_def utf8_stdout_fs_def latin1_dups_def latin1_path_def)

text \<open>Keeping a link and removing its target leaves the link dangling.\<close>

lemma symlink_target_removed:
  "returned (remove_duplicates symlink_fs [(''h'', [''data/a.bin'', ''data/link''])] ''last'' False)
     = Inr [''data/a.bin'']"
  "open_read (final_fs (remove_duplicates symlink_fs [(''h'', [''data/a.bin'', ''data/link''])] ''last'' False))
     ''data/link'' = Inl FileNotFoundError"
  by (simp_all add: run_simps symlink_fs_def open_read_def dangling_def)

subsection \<open>The keep path\<close>

text \<open>
  Claim C1, amended. Within a group the path selected by the policy is never passed to
  \<open>os.remove\<close>, never appended to the list returned and never named in a printed
  line, in a dry run and in a real run. Over a whole call the same holds of a path that
  is the keep path of every group containing it; its file is then left as it was,
  provided that removing the other paths of the mapping does not act on it: none of
  them is a second spelling of its name or the file it is a link to.
\<close>
theorem keep_path_never_removed:
  assumes "keep \<in> set policies" and "(h, paths) \<in> set dups" and "select_keep keep paths = Inr k"
  shows "(\<forall>s e s'. process_group keep dry_run paths s = (e, s') \<longrightarrow>
            (\<exists>new out cs. deleted s' = deleted s @ new \<and> stdout s' = stdout s @ out \<and>
               remove_calls s' = remove_calls s @ cs \<and>
               k \<notin> set new \<and> k \<notin> failed_path ` set out \<and> k \<notin> fst ` set cs)) \<and>
         ((\<forall>(h', ps) \<in> set dups. k \<in> set ps \<longrightarrow> select_keep keep ps = Inr k) \<longrightarrow>
            k \<notin> fst ` set (os_remove_calls fs dups keep dry_run) \<and>
            k \<notin> failed_path ` set (printed (remove_duplicates fs dups keep dry_run)) \<and>
            (\<forall>ds. returned (remove_duplicates fs dups keep dry_run) = Inr ds \<longrightarrow> k \<notin> set ds) \<and>
            ((\<forall>(h', ps) \<in> set dups. \<forall>p \<in> set ps. p \<noteq> k \<longrightarrow>
                 (\<forall>es. unlink_effect fs p es k = es k)) \<longrightarrow>
               entries (final_fs (remove_duplicates fs dups keep dry_run)) k = entries fs k))"
proof (intro conjI allI impI)
  fix s e s'
  assume "process_group keep dry_run paths s = (e, s')"
  then have "delete_rest k dry_run paths s = (e, s')"
    using process_group_Inr [OF assms(3)] by simp
  from delete_rest_extends [OF this]
  show "\<exists>new out cs. deleted s' = deleted s @ new \<and> stdout s' = stdout s @ out \<and>
               remove_calls s' = remove_calls s @ cs \<and>
               k \<notin> set new \<and> k \<notin> failed_path ` set out \<and> k \<notin> fst ` set cs"
    unfolding extends_by_def
  proof (elim exE conjE)
    fix new out cs
    assume a: "deleted s' = deleted s @ new" "stdout s' = stdout s @ out"
      "remove_calls s' = remove_calls s @ cs"
      "set new \<subseteq> set paths - {k}" "failed_path ` set out \<subseteq> set paths - {k}"
      "fst ` set cs \<subseteq> set paths - {k}"
    have "deleted s' = deleted s @ new \<and> stdout s' = stdout s @ out \<and>
               remove_calls s' = remove_calls s @ cs \<and>
               k \<notin> set new \<and> k \<notin> failed_path ` set out \<and> k \<notin> fst ` set cs"
      using a by auto
    then show ?thesis by (intro exI [of _ new] exI [of _ out] exI [of _ cs])
  qed
next
  assume oc: "\<forall>(h', ps) \<in> set dups. k \<in> set ps \<longrightarrow> select_keep keep ps = Inr k"
  from remove_duplicates_keep [OF oc, where fs = fs and dry = dry_run]
  show "k \<notin> fst ` set (os_remove_calls fs dups keep dry_run)"
    and "k \<notin> failed_path ` set (printed (remove_duplicates fs dups keep dry_run))"
    by simp_all
next
  fix ds
  assume oc: "\<forall>(h', ps) \<in> set dups. k \<in> set ps \<longrightarrow> select_keep keep ps = Inr k"
    and "returned (remove_duplicates fs dups keep dry_run) = Inr ds"
  with remove_duplicates_keep [OF oc, where fs = fs and dry = dry_run] show "k \<notin> set ds" by simp
next
  assume "\<forall>(h', ps) \<in> set dups. k \<in> set ps \<longrightarrow> select_keep keep ps = Inr k"
    and "\<forall>(h', ps) \<in> set dups. \<forall>p \<in> set ps. p \<noteq> k \<longrightarrow> (\<forall>es. unlink_effect fs p es k = es k)"
  then show "entries (final_fs (remove_duplicates fs dups keep dry_run)) k = entries fs k"
    by (rule remove_duplicates_frame)
qed

text \<open>
  The amended claim on the example: \<open>c.txt\<close> is the shortest path of its group.
\<close>
theorem keep_path_never_removed_witness:
  "''shortest_path'' \<in> set policies \<and>
   (''d1'', [''docs/a.txt'', ''docs/b.txt'', ''c.txt'', ''gone.txt'']) \<in> set example_dups \<and>
   select_keep ''shortest_path'' [''docs/a.txt'', ''docs/b.txt'', ''c.txt'', ''gone.txt''] = Inr ''c.txt'' \<and>
   returned (remove_duplicates example_fs example_dups ''shortest_path'' False)
     = Inr [''docs/a.txt'', ''docs/b.txt''] \<and>
   ''c.txt'' \<notin> set [''docs/a.txt'', ''docs/b.txt''] \<and>
   ''c.txt'' \<notin> fst ` set (os_remove_calls example_fs example_dups ''shortest_path'' False) \<and>
   entries (final_fs (remove_duplicates example_fs example_dups ''shortest_path'' False)) ''c.txt''
     = entries example_fs ''c.txt''"
proof -
  have h1: "''shortest_path'' \<in> set policies" by (simp add: policies_def)
  have h2: "(''d1'', [''docs/a.txt'', ''docs/b.txt'', ''c.txt'', ''gone.txt'']) \<in> set example_dups"
    by (simp add: example_dups_def)
  have h3: "select_keep ''shortest_path'' [''docs/a.txt'', ''docs/b.txt'', ''c.txt'', ''gone.txt'']
      = Inr ''c.txt''"
    by (simp add: select_keep_def py_min_len_def)
  have h4: "\<forall>(h', ps) \<in> set example_dups.
      ''c.txt'' \<in> set ps \<longrightarrow> select_keep ''shortest_path'' ps = Inr ''c.txt''"
    by (simp add: example_dups_def select_keep_def py_min_len_def)
  have h5: "\<forall>(h', ps) \<in> set example_dups. \<forall>p \<in> set ps. p \<noteq> ''c.txt'' \<longrightarrow>
      (\<forall>es. unlink_effect example_fs p es ''c.txt'' = es ''c.txt'')"
    by (simp add: example_dups_def example_fs_def unlink_name_def)
  have r: "returned (remove_duplicates example_fs example_dups ''shortest_path'' False)
     = Inr [''docs/a.txt'', ''docs/b.txt'']"
    by (rule example_real_run)
  from keep_path_never_removed [OF h1 h2 h3, where dry_run = False and fs = example_fs, THEN conjunct2] h4
  have t: "''c.txt'' \<notin> fst ` set (os_remove_calls example_fs example_dups ''shortest_path'' False) \<and>
     ''c.txt'' \<notin> failed_path ` set (printed (remove_duplicates example_fs example_dups ''shortest_path'' False)) \<and>
     (\<forall>ds. returned (remove_duplicates example_fs example_dups ''shortest_path'' False) = Inr ds
        \<longrightarrow> ''c.txt'' \<notin> set ds) \<and>
     ((\<forall>(h', ps) \<in> set example_dups. \<forall>p \<in> set ps. p \<noteq> ''c.txt'' \<longrightarrow>
          (\<forall>es. unlink_effect example_fs p es ''c.txt'' = es ''c.txt'')) \<longrightarrow>
        entries (final_fs (remove_duplicates example_fs example_dups ''shortest_path'' False)) ''c.txt''
          = entries example_fs ''c.txt'')"
    by (rule mp)
  from t have c: "''c.txt'' \<notin> fst ` set (os_remove_calls example_fs example_dups ''shortest_path'' False)"
    by (rule conjunct1)
  from t [THEN conjunct2, THEN conjunct2, THEN conjunct1] r
  have n: "''c.txt'' \<notin> set [''docs/a.txt'', ''docs/b.txt'']" by simp
  from t [THEN conjunct2, THEN conjunct2, THEN conjunct2] h5
  have e: "entries (final_fs (remove_duplicates example_fs example_dups ''shortest_path'' False)) ''c.txt''
       = entries example_fs ''c.txt''" by (rule mp)
  from h1 h2 h3 r n c e show ?thesis by (intro conjI)
qed

text \<open>
  The claim as stated fails on a mapping whose groups overlap, and on a group that
  holds two spellings of one name: the path kept for the first group is passed to
  \<open>os.remove\<close> or removed under its other spelling, and its file is gone.
\<close>
theorem keep_path_removed_counterexample:
  "(''h1'', [''docs/a.txt'', ''docs/b.txt'']) \<in> set overlap_dups \<and>
   select_keep ''first'' [''docs/a.txt'', ''docs/b.txt''] = Inr ''docs/a.txt'' \<and>
   returned (remove_duplicates example_fs overlap_dups ''first'' False)
     = Inr [''docs/b.txt'', ''docs/a.txt''] \<and>
   entries example_fs ''docs/a.txt'' = Some plain_file \<and>
   entries (final_fs (remove_duplicates example_fs overlap_dups ''first'' False)) ''docs/a.txt'' = None \<and>
   (''h1'', [''t/k'', ''t/./k'']) \<in> set alias_dups \<and>
   select_keep ''first'' [''t/k'', ''t/./k''] = Inr ''t/k'' \<and>
   returned (remove_duplicates alias_fs alias_dups ''first'' False) = Inr [''t/./k''] \<and>
   entries alias_fs ''t/k'' = Some plain_file \<and>
   entries (final_fs (remove_duplicates alias_fs alias_dups ''first'' False)) ''t/k'' = None"
  using overlap_run alias_run
  by (simp add: overlap_dups_def alias_dups_def select_keep_def example_fs_def alias_fs_def)

subsection \<open>Dry runs and real runs\<close>

text \<open>
  Claim C3. With \<open>dry_run\<close> true the file system is returned unchanged and nothing
  is printed; the list returned is the concatenation, group by group, of the paths
  other than the keep path, and it is returned whenever the policy is one of the four
  and no group is empty.
\<close>
theorem dry_run_changes_nothing:
  "final_fs (remove_duplicates fs dups keep True) = fs \<and>
   printed (remove_duplicates fs dups keep True) = [] \<and>
   (\<forall>ds. returned (remove_duplicates fs dups keep True) = Inr ds \<longrightarrow>
      ds = concat (map (\<lambda>(h, ps). candidates keep ps) dups)) \<and>
   (keep \<in> set policies \<longrightarrow> (\<forall>(h, ps) \<in> set dups. ps \<noteq> []) \<longrightarrow>
      returned (remove_duplicates fs dups keep True)
        = Inr (concat (map (\<lambda>(h, ps). candidates keep ps) dups)))"
proof (intro conjI allI impI)
  show "final_fs (remove_duplicates fs dups keep True) = fs"
    and "printed (remove_duplicates fs dups keep True) = []"
    using dry_run_total [of fs dups keep] by simp_all
next
  fix ds
  assume "returned (remove_duplicates fs dups keep True) = Inr ds"
  then show "ds = concat (map (\<lambda>(h, ps). candidates keep ps) dups)"
    by (rule dry_run_if_returns)
next
  assume "keep \<in> set policies" and "\<forall>(h, ps) \<in> set dups. ps \<noteq> []"
  then show "returned (remove_duplicates fs dups keep True)
        = Inr (concat (map (\<lambda>(h, ps). candidates keep ps) dups))"
    by (rule dry_run_returned)
qed

text \<open>
  The dry run of the example.
\<close>
theorem dry_run_changes_nothing_witness:
  "''first'' \<in> set policies \<and>
   returned (remove_duplicates example_fs example_dups ''first'' True)
     = Inr [''docs/b.txt'', ''c.txt'', ''gone.txt''] \<and>
   concat (map (\<lambda>(h, ps). candidates ''first'' ps) example_dups)
     = [''docs/b.txt'', ''c.txt'', ''gone.txt''] \<and>
   final_fs (remove_duplicates example_fs example_dups ''first'' True) = example_fs"
proof -
  have h1: "''first'' \<in> set policies" by (simp add: policies_def)
  have h2: "\<forall>(h, ps) \<in> set example_dups. ps \<noteq> []" by (simp add: example_dups_def)
  have c: "concat (map (\<lambda>(h, ps). candidates ''first'' ps) example_dups)
     = [''docs/b.txt'', ''c.txt'', ''gone.txt'']"
    by (simp add: example_dups_def candidates_def select_keep_def)
  note w = dry_run_changes_nothing [of example_fs example_dups "''first''"]
  have f: "final_fs (remove_duplicates example_fs example_dups ''first'' True) = example_fs"
    and g: "''first'' \<in> set policies \<longrightarrow> (\<forall>(h, ps) \<in> set example_dups. ps \<noteq> []) \<longrightarrow>
      returned (remove_duplicates example_fs example_dups ''first'' True)
        = Inr (concat (map (\<lambda>(h, ps). candidates ''first'' ps) example_dups))"
    using w [THEN conjunct1] w [THEN conjunct2, THEN conjunct2, THEN conjunct2] by - assumption+
  from g h1 h2 c
  have r: "returned (remove_duplicates example_fs example_dups ''first'' True)
     = Inr [''docs/b.txt'', ''c.txt'', ''gone.txt'']" by simp
  from h1 r c f show ?thesis by (intro conjI)
qed




text \<open>
  Claim C7, amended. With a \<open>keep\<close> value outside the four policies nothing is
  removed and nothing printed. The call raises \<open>ValueError\<close> when the mapping has a
  group; on the empty mapping the value is never inspected and the empty list is
  returned.
\<close>
theorem invalid_keep_deletes_nothing:
  assumes "keep \<notin> set policies"
  shows "remove_duplicates fs dups keep dry_run =
     \<lparr>returned = (if dups = [] then Inr []
                  else Inl (ValueError (''Invalid keep strategy: '' @ keep))),
      final_fs = fs, printed = []\<rparr>"
  using remove_groups_invalid [OF assms, of dry_run dups "start fs"]
  by (simp add: remove_duplicates_def start_def)

text \<open>
  An unknown policy on the example.
\<close>
theorem invalid_keep_deletes_nothing_witness:
  "''newest'' \<notin> set policies \<and>
   remove_duplicates example_fs example_dups ''newest'' False =
     \<lparr>returned = Inl (ValueError ''Invalid keep strategy: newest''),
      final_fs = example_fs, printed = []\<rparr>"
proof -
  have h: "''newest'' \<notin> set policies" by (simp add: policies_def)
  from invalid_keep_deletes_nothing [OF h, of example_fs example_dups False] h
  show ?thesis by (simp add: example_dups_def)
qed

text \<open>
  The claim as stated fails on the empty mapping: no error is raised.
\<close>
theorem invalid_keep_empty_mapping_counterexample:
  "''newest'' \<notin> set policies \<and>
   returned (remove_duplicates example_fs [] ''newest'' False) = Inr []"
  by (simp add: policies_def remove_duplicates_def start_def)

text \<open>
  Claim C10. A call that leaves out \<open>dry_run\<close> is the call with \<open>dry_run=True\<close>:
  the file system is unchanged, nothing is printed, and a returned list holds the
  candidate paths.
\<close>
theorem default_is_dry_run:
  "remove_duplicates_call fs dups keep None = remove_duplicates_call fs dups keep (Some True) \<and>
   final_fs (remove_duplicates_call fs dups keep None) = fs \<and>
   printed (remove_duplicates_call fs dups keep None) = [] \<and>
   (\<forall>ds. returned (remove_duplicates_call fs dups keep None) = Inr ds \<longrightarrow>
      ds = concat (map (\<lambda>(h, ps). candidates (case keep of None \<Rightarrow> ''first'' | Some k \<Rightarrow> k) ps) dups)) \<and>
   ((\<forall>(h, ps) \<in> set dups. ps \<noteq> []) \<longrightarrow>
      returned (remove_duplicates_call fs dups None None)
        = Inr (concat (map (\<lambda>(h, ps). candidates ''first'' ps) dups)))"
proof (intro conjI allI impI)
  show "remove_duplicates_call fs dups keep None = remove_duplicates_call fs dups keep (Some True)"
    by (simp add: remove_duplicates_call_def)
  show "final_fs (remove_duplicates_call fs dups keep None) = fs"
    and "printed (remove_duplicates_call fs dups keep None) = []"
    by (simp_all add: remove_duplicates_call_def dry_run_total)
next
  fix ds
  assume "returned (remove_duplicates_call fs dups keep None) = Inr ds"
  then show "ds = concat (map (\<lambda>(h, ps). candidates (case keep of None \<Rightarrow> ''first'' | Some k \<Rightarrow> k) ps) dups)"
    using dry_run_if_returns by (simp add: remove_duplicates_call_def)
next
  assume ne: "\<forall>(h, ps) \<in> set dups. ps \<noteq> []"
  have "''first'' \<in> set policies" by (simp add: policies_def)
  from dry_run_returned [OF this ne, of fs]
  show "returned (remove_duplicates_call fs dups None None)
        = Inr (concat (map (\<lambda>(h, ps). candidates ''first'' ps) dups))"
    by (simp add: remove_duplicates_call_def)
qed

text \<open>
  The default call on the example.
\<close>
theorem default_is_dry_run_witness:
  "returned (remove_duplicates_call example_fs example_dups None None)
     = Inr [''docs/b.txt'', ''c.txt'', ''gone.txt''] \<and>
   final_fs (remove_duplicates_call example_fs example_dups None None) = example_fs \<and>
   concat (map (\<lambda>(h, ps). candidates ''first'' ps) example_dups)
     = [''docs/b.txt'', ''c.txt'', ''gone.txt'']"
proof -
  note t = default_is_dry_run [of example_fs example_dups None]
  have ne: "\<forall>(h, ps) \<in> set example_dups. ps \<noteq> []" by (simp add: example_dups_def)
  have c: "concat (map (\<lambda>(h, ps). candidates ''first'' ps) example_dups)
     = [''docs/b.txt'', ''c.txt'', ''gone.txt'']"
    by (simp add: example_dups_def candidates_def select_keep_def)
  from t [THEN conjunct2, THEN conjunct1]
  have f: "final_fs (remove_duplicates_call example_fs example_dups None None) = example_fs" .
  from t [THEN conjunct2, THEN conjunct2, THEN conjunct2, THEN conjunct2] ne
  have "returned (remove_duplicates_call example_fs example_dups None None)
        = Inr (concat (map (\<lambda>(h, ps). candidates ''first'' ps) example_dups))"
    by (rule mp)
  then have r: "returned (remove_duplicates_call example_fs example_dups None None)
     = Inr [''docs/b.txt'', ''c.txt'', ''gone.txt'']"
    using c by simp
  from r f c show ?thesis by (intro conjI)
qed

section \<open>Properties of \<open>find_duplicates\<close>\<close>

subsection \<open>Hashing a file\<close>

text \<open>Two digests of the test suite of RFC 1321: the empty string and \<open>abc\<close>.\<close>

lemma md5_test_suite:
  "md5_hexdigest [] = ''d41d8cd98f00b204e9800998ecf8427e''"
  "md5_hexdigest [0x61, 0x62, 0x63] = ''900150983cd24fb0d6963f7d28e17f72''"
  by code_simp+

lemma feed_chunks_all:
  "0 < chunk_size \<Longrightarrow> feed_chunks chunk_size unread hasher = hasher @ unread"
proof (induction chunk_size unread hasher rule: feed_chunks.induct)
  case (1 chunk_size unread hasher)
  show ?case
  proof (cases "take chunk_size unread = []")
    case True
    then have "unread = []" using "1.prems" by simp
    then show ?thesis by (simp add: feed_chunks.simps)
  next
    case False
    then have "feed_chunks chunk_size unread hasher
        = feed_chunks chunk_size (drop chunk_size unread) (update hasher (take chunk_size unread))"
      by (subst feed_chunks.simps) simp
    also have "\<dots> = update hasher (take chunk_size unread) @ drop chunk_size unread"
      using "1.IH" [OF False "1.prems"] .
    finally show ?thesis by (simp add: update_def)
  qed
qed

lemma hash_file_Inr:
  "hash_file fs p 8192 = Inr h \<longleftrightarrow> (\<exists>c. open_read fs p = Inr c \<and> h = md5_hexdigest c)"
  by (auto simp: hash_file_def hexdigest_def feed_chunks_all split: sum.splits)

subsection \<open>Dictionaries\<close>

lemma all_members_Nil: "all_members Q []"
  by (simp add: all_members_def)

lemma all_members_dict_append:
  "all_members Q d \<Longrightarrow> Q k v \<Longrightarrow> all_members Q (dict_append k v d)"
  by (induction d) (fastforce simp: all_members_def split: if_splits)+

lemma all_members_filter: "all_members Q d \<Longrightarrow> all_members Q (filter P d)"
  by (auto simp: all_members_def)

lemma all_membersD: "all_members Q d \<Longrightarrow> (k, vs) \<in> set d \<Longrightarrow> v \<in> set vs \<Longrightarrow> Q k v"
  by (auto simp: all_members_def)

lemma all_members_mono: "all_members Q d \<Longrightarrow> (\<And>k v. Q k v \<Longrightarrow> Q' k v) \<Longrightarrow> all_members Q' d"
  by (auto simp: all_members_def)

lemma fst_dict_append: "fst ` set (dict_append k v d) = insert k (fst ` set d)"
  by (induction d) (force split: if_splits)+

lemma distinct_dict_append: "distinct (map fst d) \<Longrightarrow> distinct (map fst (dict_append k v d))"
proof (induction d)
  case Nil
  then show ?case by simp
next
  case (Cons kv d)
  obtain k' vs where kv: "kv = (k', vs)" by (cases kv)
  show ?case
    using Cons fst_dict_append [of k v d] by (auto simp: kv)
qed

subsection \<open>The two passes\<close>

lemma size_pass_sound:
  assumes "size_pass fs min_size ps m = Inr m'" and "all_members Q m"
    and "\<And>p s. p \<in> set ps \<Longrightarrow> is_file fs p = Inr True \<Longrightarrow> stat_st_size fs p = Inr s \<Longrightarrow>
           min_size \<le> int s \<Longrightarrow> Q s p"
  shows "all_members Q m'"
  using assms
proof (induction ps arbitrary: m)
  case Nil
  then show ?case by simp
next
  case (Cons p ps)
  have rest: "\<And>q s. q \<in> set ps \<Longrightarrow> is_file fs q = Inr True \<Longrightarrow> stat_st_size fs q = Inr s \<Longrightarrow>
           min_size \<le> int s \<Longrightarrow> Q s q"
    using Cons.prems(3) by simp
  show ?case
  proof (cases "is_file fs p")
    case (Inl e)
    then show ?thesis using Cons.prems(1) by simp
  next
    case (Inr b)
    show ?thesis
    proof (cases "b \<and> (\<exists>s. stat_st_size fs p = Inr s \<and> min_size \<le> int s)")
      case True
      then obtain s where s: "stat_st_size fs p = Inr s" "min_size \<le> int s" and b: b by blast
      have "Q s p" using Cons.prems(3) [of p s] Inr b s by simp
      then have "all_members Q (dict_append s p m)"
        using Cons.prems(2) by (rule all_members_dict_append [rotated])
      moreover have "size_pass fs min_size ps (dict_append s p m) = Inr m'"
        using Cons.prems(1) Inr b s by simp
      ultimately show ?thesis using Cons.IH rest by blast
    next
      case False
      then have "size_pass fs min_size ps m = Inr m'"
        using Cons.prems(1) Inr by (auto split: sum.splits if_splits)
      then show ?thesis using Cons.IH Cons.prems(2) rest by blast
    qed
  qed
qed

lemma size_pass_distinct:
  "size_pass fs min_size ps m = Inr m' \<Longrightarrow> distinct (map fst m) \<Longrightarrow> distinct (map fst m')"
  by (induction ps arbitrary: m) (auto split: sum.splits if_splits intro: distinct_dict_append)


lemma size_pass_raises:
  "size_pass fs min_size ps m = Inl e \<Longrightarrow> \<exists>p \<in> set ps. is_file fs p = Inl e"
  by (induction ps arbitrary: m) (auto split: sum.splits if_splits)

lemma hash_files_sound:
  assumes "all_members R m" and "\<And>p h. p \<in> set files \<Longrightarrow> hash_file fs p 8192 = Inr h \<Longrightarrow> R h p"
  shows "all_members R (hash_files fs files m)"
  using assms
proof (induction files arbitrary: m)
  case Nil
  then show ?case by simp
next
  case (Cons p files)
  show ?case
  proof (cases "hash_file fs p 8192")
    case (Inl e)
    then show ?thesis using Cons by simp
  next
    case (Inr h)
    have "all_members R (dict_append h p m)"
      using Cons.prems(1) Cons.prems(2) [of p h] Inr by (simp add: all_members_dict_append)
    then show ?thesis using Cons.IH [of "dict_append h p m"] Cons.prems(2) Inr by simp
  qed
qed

lemma hash_pass_sound:
  assumes "all_members R m" and "all_members Q size_map"
    and "\<And>s p h. Q s p \<Longrightarrow> hash_file fs p 8192 = Inr h \<Longrightarrow> R h p"
  shows "all_members R (hash_pass fs size_map m)"
  using assms(1,2)
proof (induction size_map arbitrary: m)
  case Nil
  then show ?case by simp
next
  case (Cons b size_map)
  obtain s files where b: "b = (s, files)" by (cases b)
  have q: "all_members Q size_map" and here: "\<forall>p \<in> set files. Q s p"
    using Cons.prems(2) by (auto simp: all_members_def b)
  have "all_members R (hash_files fs files m)"
    using Cons.prems(1) here assms(3) by (intro hash_files_sound) auto
  then show ?case using Cons.IH q Cons.prems(1) by (simp add: b)
qed

lemma hash_files_distinct: "distinct (map fst m) \<Longrightarrow> distinct (map fst (hash_files fs files m))"
  by (induction files arbitrary: m) (auto split: sum.splits intro: distinct_dict_append)

lemma hash_pass_distinct: "distinct (map fst m) \<Longrightarrow> distinct (map fst (hash_pass fs size_map m))"
  by (induction fs size_map m rule: hash_pass.induct) (simp_all add: hash_files_distinct)

lemma find_duplicates_sound:
  assumes "find_duplicates fs directory min_size = Inr groups"
  shows "\<exists>listing. rglob fs directory = Inr listing \<and> all_members (hashed fs min_size listing) groups \<and>
     distinct (map fst groups) \<and> (\<forall>(h, paths) \<in> set groups. 2 \<le> length paths)"
proof -
  from assms obtain listing size_map where l: "rglob fs directory = Inr listing"
    and sp: "size_pass fs min_size listing [] = Inr size_map"
    and g: "groups = filter (\<lambda>(h, paths). length paths > 1) (hash_pass fs size_map [])"
    by (auto simp: find_duplicates_def split: sum.splits)
  have szd: "all_members (sized fs min_size listing) size_map"
    using sp all_members_Nil by (rule size_pass_sound) (simp add: sized_def)
  have "all_members (hashed fs min_size listing) (hash_pass fs size_map [])"
  proof (rule hash_pass_sound [OF all_members_Nil szd])
    fix s p h
    assume "sized fs min_size listing s p" and "hash_file fs p 8192 = Inr h"
    then show "hashed fs min_size listing h p"
      by (auto simp: hashed_def hash_file_Inr)
  qed
  then have "all_members (hashed fs min_size listing) groups"
    unfolding g by (rule all_members_filter)
  moreover have "distinct (map fst groups)"
    unfolding g using hash_pass_distinct [of "[]" fs size_map] by (simp add: distinct_map_filter)
  moreover have "\<forall>(h, paths) \<in> set groups. 2 \<le> length paths"
    unfolding g by auto
  ultimately show ?thesis using l by blast
qed


subsection \<open>Example scans\<close>

lemma md5_collision_a: "md5_hexdigest collision_a = ''79054025255fb1a26e4bc422aef54eb4''"
  by code_simp

lemma md5_collision_b: "md5_hexdigest collision_b = ''79054025255fb1a26e4bc422aef54eb4''"
  by code_simp

lemma collision_differ: "collision_a \<noteq> collision_b"
  by (simp add: collision_a_def collision_b_def)

lemma md5_zero_line: "md5_hexdigest [0x30, 0x0a] = ''897316929176464ebc9ad085f31e7284''"
  by code_simp

lemma md5_one_line: "md5_hexdigest [0x31, 0x0a] = ''b026324c6904b2a9cb4b88d6d61c81d1''"
  by code_simp

lemmas scan_simps = find_duplicates_def rglob_def is_file_def stat_st_size_def open_read_def
  hash_file_def hexdigest_def feed_chunks_all plain_file_def

lemma collision_scan:
  "find_duplicates collision_fs ''inbox'' 100 =
     Inr [(''79054025255fb1a26e4bc422aef54eb4'', [''inbox/a.bin'', ''inbox/b.bin''])]"
  by (simp add: scan_simps collision_fs_def md5_collision_a md5_collision_b)

lemma symlink_scan:
  "find_duplicates symlink_fs ''data'' 1024 =
     Inr [(md5_hexdigest (replicate 2000 0x78), [''data/a.bin'', ''data/link''])]"
  by (simp add: scan_simps symlink_fs_def directory_node_def)

lemma pseudo_scan:
  "find_duplicates pseudo_fs ''/'' 0 =
     Inr [(''897316929176464ebc9ad085f31e7284'',
           [''/proc/sys/net/ipv4/ip_forward'', ''/proc/sys/vm/overcommit_memory'',
            ''/sys/class/net/lo/dormant''])]"
  by (simp add: scan_simps pseudo_fs_def pseudo_file_def md5_zero_line md5_one_line)

lemma missing_scan: "find_duplicates example_fs ''missing'' 1024 = Inr []"
  by (simp add: scan_simps example_fs_def)

subsection \<open>The groups returned\<close>

lemma find_duplicates_member:
  assumes "find_duplicates fs directory min_size = Inr groups" and "(h, paths) \<in> set groups"
    and "p \<in> set paths"
  shows "\<exists>listing s c. rglob fs directory = Inr listing \<and> p \<in> set listing \<and>
     is_file fs p = Inr True \<and> stat_st_size fs p = Inr s \<and> min_size \<le> int s \<and>
     open_read fs p = Inr c \<and> md5_hexdigest c = h"
proof -
  from find_duplicates_sound [OF assms(1)] obtain listing where
    l: "rglob fs directory = Inr listing" and m: "all_members (hashed fs min_size listing) groups"
    by blast
  from all_membersD [OF m assms(2,3)] have "hashed fs min_size listing h p" .
  then show ?thesis using l by (auto simp: hashed_def sized_def)
qed

lemma find_duplicates_length:
  assumes "find_duplicates fs directory min_size = Inr groups" and "(h, paths) \<in> set groups"
  shows "2 \<le> length paths"
  using find_duplicates_sound [OF assms(1)] assms(2) by auto


text \<open>
  Claim C2, amended. Every group of the mapping returned has at least two member
  paths, and every member was read successfully at hash time with content whose MD5
  digest is the key of the group: members of a group agree in their digests.
\<close>
theorem groups_share_digest:
  assumes "find_duplicates fs directory min_size = Inr groups" and "(h, paths) \<in> set groups"
  shows "2 \<le> length paths \<and>
     (\<forall>p \<in> set paths. \<exists>c. open_read fs p = Inr c \<and> md5_hexdigest c = h)"
proof
  show "2 \<le> length paths" using assms by (rule find_duplicates_length)
next
  show "\<forall>p \<in> set paths. \<exists>c. open_read fs p = Inr c \<and> md5_hexdigest c = h"
  proof
    fix p assume "p \<in> set paths"
    from find_duplicates_member [OF assms this] show "\<exists>c. open_read fs p = Inr c \<and> md5_hexdigest c = h"
      by blast
  qed
qed

theorem groups_share_digest_witness:
  "find_duplicates symlink_fs ''data'' 1024
     = Inr [(md5_hexdigest (replicate 2000 0x78), [''data/a.bin'', ''data/link''])] \<and>
   (md5_hexdigest (replicate 2000 0x78), [''data/a.bin'', ''data/link''])
     \<in> set [(md5_hexdigest (replicate 2000 0x78), [''data/a.bin'', ''data/link''])] \<and>
   2 \<le> length [''data/a.bin'', ''data/link''] \<and>
   (\<exists>c. open_read symlink_fs ''data/link'' = Inr c \<and> md5_hexdigest c = md5_hexdigest (replicate 2000 0x78))"
proof -
  have m: "(md5_hexdigest (replicate 2000 0x78), [''data/a.bin'', ''data/link''])
     \<in> set [(md5_hexdigest (replicate 2000 0x78), [''data/a.bin'', ''data/link''])]"
    by simp
  from groups_share_digest [OF symlink_scan m]
  have "2 \<le> length [''data/a.bin'', ''data/link'']"
    and "\<exists>c. open_read symlink_fs ''data/link'' = Inr c \<and> md5_hexdigest c = md5_hexdigest (replicate 2000 0x78)"
    by simp_all
  with symlink_scan m show ?thesis by (intro conjI)
qed

text \<open>
  The claim as stated fails: the two 128-byte files below differ and have the same MD5
  digest, so they are returned as one group.
\<close>
theorem md5_collision_counterexample:
  "find_duplicates collision_fs ''inbox'' 100
     = Inr [(''79054025255fb1a26e4bc422aef54eb4'', [''inbox/a.bin'', ''inbox/b.bin''])] \<and>
   open_read collision_fs ''inbox/a.bin'' = Inr collision_a \<and>
   open_read collision_fs ''inbox/b.bin'' = Inr collision_b \<and>
   collision_a \<noteq> collision_b"
  using collision_scan collision_differ
  by (simp add: open_read_def collision_fs_def plain_file_def)

text \<open>
  Claim C5, amended. For a root that does not exist, is not a directory or cannot be
  listed, nothing is raised and the empty mapping is returned. An error of the first
  \<open>stat\<close> of the root other than "not found" is the one that reaches the caller.
\<close>
theorem unusable_root_gives_empty_result:
  "(tree fs directory \<in> {NoSuchDirectory, NotADirectory, ListingDenied} \<longrightarrow>
      find_duplicates fs directory min_size = Inr []) \<and>
   (tree fs directory = RootStatFails e \<longrightarrow> find_duplicates fs directory min_size = Inl e)"
  by (auto simp: find_duplicates_def rglob_def)

theorem unusable_root_gives_empty_result_witness:
  "tree example_fs ''missing'' \<in> {NoSuchDirectory, NotADirectory, ListingDenied} \<and>
   find_duplicates example_fs ''missing'' 1024 = Inr []"
proof -
  have h: "tree example_fs ''missing'' \<in> {NoSuchDirectory, NotADirectory, ListingDenied}"
    by (simp add: example_fs_def)
  from unusable_root_gives_empty_result [of example_fs "''missing''" 1024, THEN conjunct1] h
  have "find_duplicates example_fs ''missing'' 1024 = Inr []" by (rule mp)
  with h show ?thesis by (intro conjI)
qed

text \<open>The claim as stated fails on a missing root: the empty mapping is returned.\<close>
theorem missing_root_counterexample:
  "tree example_fs ''missing'' = NoSuchDirectory \<and>
   find_duplicates example_fs ''missing'' 1024 = Inr []"
  using missing_scan by (simp add: example_fs_def)




text \<open>
  Claim C8. A path whose \<open>stat\<close> size is below \<open>min_size\<close> is in no group of the
  mapping returned: every member of a group has a size of at least \<open>min_size\<close>.
\<close>
theorem small_files_excluded:
  assumes "find_duplicates fs directory min_size = Inr groups" and "(h, paths) \<in> set groups"
  shows "(\<forall>p s. stat_st_size fs p = Inr s \<longrightarrow> int s < min_size \<longrightarrow> p \<notin> set paths) \<and>
     (\<forall>p \<in> set paths. \<exists>s. stat_st_size fs p = Inr s \<and> min_size \<le> int s)"
proof -
  have pos: "\<exists>s. stat_st_size fs p = Inr s \<and> min_size \<le> int s" if "p \<in> set paths" for p
    using find_duplicates_member [OF assms that] by blast
  then have "p \<notin> set paths" if "stat_st_size fs p = Inr s" "int s < min_size" for p s
    using that by fastforce
  with pos show ?thesis by blast
qed

theorem small_files_excluded_witness:
  "find_duplicates symlink_fs ''data'' 1024
     = Inr [(md5_hexdigest (replicate 2000 0x78), [''data/a.bin'', ''data/link''])] \<and>
   stat_st_size symlink_fs ''data/small.txt'' = Inr 500 \<and> int 500 < 1024 \<and>
   ''data/small.txt'' \<notin> set [''data/a.bin'', ''data/link'']"
proof -
  have m: "(md5_hexdigest (replicate 2000 0x78), [''data/a.bin'', ''data/link''])
     \<in> set [(md5_hexdigest (replicate 2000 0x78), [''data/a.bin'', ''data/link''])]"
    by simp
  have s: "stat_st_size symlink_fs ''data/small.txt'' = Inr 500"
    by (simp add: stat_st_size_def symlink_fs_def plain_file_def)
  have lt: "int 500 < 1024" by simp
  from small_files_excluded [OF symlink_scan m, THEN conjunct1, rule_format, OF s lt]
  have "''data/small.txt'' \<notin> set [''data/a.bin'', ''data/link'']" .
  with symlink_scan s lt show ?thesis by (intro conjI)
qed

text \<open>
  Claim C9, amended. Two members of a group have the same \<open>stat\<close> size provided
  that, for both, the content read at hash time has the length \<open>stat\<close> reported,
  and that MD5 does not collide on the two contents.
\<close>
theorem same_size_without_collision:
  assumes "find_duplicates fs directory min_size = Inr groups" and "(h, paths) \<in> set groups"
    and "p \<in> set paths" and "q \<in> set paths"
    and "\<forall>c s. open_read fs p = Inr c \<longrightarrow> stat_st_size fs p = Inr s \<longrightarrow> length c = s"
    and "\<forall>c s. open_read fs q = Inr c \<longrightarrow> stat_st_size fs q = Inr s \<longrightarrow> length c = s"
    and "\<forall>c c'. open_read fs p = Inr c \<longrightarrow> open_read fs q = Inr c' \<longrightarrow>
           md5_hexdigest c = md5_hexdigest c' \<longrightarrow> c = c'"
  shows "stat_st_size fs p = stat_st_size fs q"
proof -
  from find_duplicates_member [OF assms(1,2,3)] obtain s c where
    p: "stat_st_size fs p = Inr s" "open_read fs p = Inr c" "md5_hexdigest c = h" by blast
  from find_duplicates_member [OF assms(1,2,4)] obtain s' c' where
    q: "stat_st_size fs q = Inr s'" "open_read fs q = Inr c'" "md5_hexdigest c' = h" by blast
  have "c = c'" using assms(7) p q by simp
  moreover have "length c = s" "length c' = s'" using assms(5,6) p q by simp_all
  ultimately show ?thesis using p q by simp
qed

theorem same_size_without_collision_witness:
  "find_duplicates symlink_fs ''data'' 1024
     = Inr [(md5_hexdigest (replicate 2000 0x78), [''data/a.bin'', ''data/link''])] \<and>
   open_read symlink_fs ''data/a.bin'' = Inr (replicate 2000 0x78) \<and>
   open_read symlink_fs ''data/link'' = Inr (replicate 2000 0x78) \<and>
   stat_st_size symlink_fs ''data/a.bin'' = Inr 2000 \<and>
   stat_st_size symlink_fs ''data/a.bin'' = stat_st_size symlink_fs ''data/link''"
proof -
  have m: "(md5_hexdigest (replicate 2000 0x78), [''data/a.bin'', ''data/link''])
     \<in> set [(md5_hexdigest (replicate 2000 0x78), [''data/a.bin'', ''data/link''])]"
    and p: "''data/a.bin'' \<in> set [''data/a.bin'', ''data/link'']"
    and q: "''data/link'' \<in> set [''data/a.bin'', ''data/link'']"
    by simp_all
  have ra: "open_read symlink_fs ''data/a.bin'' = Inr (replicate 2000 0x78)"
    and rl: "open_read symlink_fs ''data/link'' = Inr (replicate 2000 0x78)"
    and sa: "stat_st_size symlink_fs ''data/a.bin'' = Inr 2000"
    and sl: "stat_st_size symlink_fs ''data/link'' = Inr 2000"
    by (simp_all add: open_read_def stat_st_size_def symlink_fs_def plain_file_def)
  have h1: "\<forall>c s. open_read symlink_fs ''data/a.bin'' = Inr c \<longrightarrow>
      stat_st_size symlink_fs ''data/a.bin'' = Inr s \<longrightarrow> length c = s"
    using ra sa by auto
  have h2: "\<forall>c s. open_read symlink_fs ''data/link'' = Inr c \<longrightarrow>
      stat_st_size symlink_fs ''data/link'' = Inr s \<longrightarrow> length c = s"
    using rl sl by auto
  have h3: "\<forall>c c'. open_read symlink_fs ''data/a.bin'' = Inr c \<longrightarrow>
      open_read symlink_fs ''data/link'' = Inr c' \<longrightarrow> md5_hexdigest c = md5_hexdigest c' \<longrightarrow> c = c'"
    using ra rl by auto
  from same_size_without_collision [OF symlink_scan m p q h1 h2 h3]
  have "stat_st_size symlink_fs ''data/a.bin'' = stat_st_size symlink_fs ''data/link''" .
  with symlink_scan ra rl sa show ?thesis by (intro conjI)
qed

text \<open>
  The claim as stated fails: \<open>hash_map\<close> is shared by all sizes, and files of
  \<open>/proc\<close> (size 0) and \<open>/sys\<close> (size 4096) with the same content fall into one
  group.
\<close>
theorem mixed_sizes_counterexample:
  "find_duplicates pseudo_fs ''/'' 0 =
     Inr [(''897316929176464ebc9ad085f31e7284'',
           [''/proc/sys/net/ipv4/ip_forward'', ''/proc/sys/vm/overcommit_memory'',
            ''/sys/class/net/lo/dormant''])] \<and>
   stat_st_size pseudo_fs ''/proc/sys/net/ipv4/ip_forward'' = Inr 0 \<and>
   stat_st_size pseudo_fs ''/sys/class/net/lo/dormant'' = Inr 4096"
  using pseudo_scan by (simp add: stat_st_size_def pseudo_fs_def pseudo_file_def)

section \<open>Scanning, then removing\<close>

text \<open>
  \<open>rglob\<close> yields every path once, so no path is stored twice in \<open>size_map\<close>, in
  \<open>hash_map\<close> or in the mapping returned: the groups are disjoint. Hence, on a mapping
  that \<open>find_duplicates\<close> returned, the path kept for a group is in no returned list
  of \<open>remove_duplicates\<close> and is never passed to \<open>os.remove\<close>. A group may still
  hold a file and a link to it, so the file kept is left as it was only if removing the
  other paths does not act on it.
\<close>

lemma dict_values_mem: "(k, vs) \<in> set d \<Longrightarrow> v \<in> set vs \<Longrightarrow> v \<in> set (dict_values d)"
  by (induction d) auto


lemma set_values_dict_append:
  "set (dict_values (dict_append k v d)) = insert v (set (dict_values d))"
  by (induction d) (auto split: if_splits)

lemma distinct_values_dict_append:
  "distinct (dict_values d) \<Longrightarrow> v \<notin> set (dict_values d) \<Longrightarrow>
   distinct (dict_values (dict_append k v d))"
proof (induction d)
  case Nil
  then show ?case by simp
next
  case (Cons kv d)
  obtain k' vs where kv: "kv = (k', vs)" by (cases kv)
  show ?case
  proof (cases "k = k'")
    case True
    then show ?thesis using Cons.prems by (auto simp: kv)
  next
    case False
    have "distinct (dict_values (dict_append k v d))"
      using Cons by (simp add: kv)
    moreover have "set vs \<inter> set (dict_values (dict_append k v d)) = {}"
      using Cons.prems unfolding set_values_dict_append by (auto simp: kv)
    ultimately show ?thesis using Cons.prems False by (simp add: kv)
  qed
qed

lemma size_pass_values:
  assumes "size_pass fs min_size ps m = Inr m'" and "distinct ps"
    and "distinct (dict_values m)" and "set (dict_values m) \<inter> set ps = {}"
  shows "distinct (dict_values m') \<and>
     set (dict_values m') \<subseteq> set (dict_values m) \<union> set ps"
  using assms
proof (induction ps arbitrary: m)
  case Nil
  then show ?case by simp
next
  case (Cons p ps)
  have dps: "distinct ps" and pn: "p \<notin> set ps" and pm: "p \<notin> set (dict_values m)"
    and inter: "set (dict_values m) \<inter> set ps = {}"
    using Cons.prems(2,4) by auto
  show ?case
  proof (cases "\<exists>s. is_file fs p = Inr True \<and> stat_st_size fs p = Inr s \<and> min_size \<le> int s")
    case True
    then obtain s where s: "is_file fs p = Inr True" "stat_st_size fs p = Inr s" "min_size \<le> int s"
      by blast
    define m1 where "m1 = dict_append s p m"
    have step: "size_pass fs min_size ps m1 = Inr m'"
      using Cons.prems(1) s by (simp add: m1_def)
    have d1: "distinct (dict_values m1)"
      unfolding m1_def using Cons.prems(3) pm by (rule distinct_values_dict_append)
    have i1: "set (dict_values m1) \<inter> set ps = {}"
      unfolding m1_def set_values_dict_append using inter pn by auto
    from Cons.IH [OF step dps d1 i1]
    show ?thesis unfolding m1_def set_values_dict_append by auto
  next
    case False
    then have step: "size_pass fs min_size ps m = Inr m'"
      using Cons.prems(1) by (auto split: sum.splits if_splits)
    from Cons.IH [OF step dps Cons.prems(3) inter] show ?thesis by auto
  qed
qed

lemma hash_files_values:
  assumes "distinct files" and "distinct (dict_values m)"
    and "set (dict_values m) \<inter> set files = {}"
  shows "distinct (dict_values (hash_files fs files m)) \<and>
     set (dict_values (hash_files fs files m)) \<subseteq> set (dict_values m) \<union> set files"
  using assms
proof (induction files arbitrary: m)
  case Nil
  then show ?case by simp
next
  case (Cons p files)
  have df: "distinct files" and pn: "p \<notin> set files" and pm: "p \<notin> set (dict_values m)"
    and inter: "set (dict_values m) \<inter> set files = {}"
    using Cons.prems(1,3) by auto
  show ?case
  proof (cases "hash_file fs p 8192")
    case (Inl e)
    then show ?thesis using Cons.IH [OF df Cons.prems(2) inter] by auto
  next
    case (Inr h)
    define m1 where "m1 = dict_append h p m"
    have d1: "distinct (dict_values m1)"
      unfolding m1_def using Cons.prems(2) pm by (rule distinct_values_dict_append)
    have i1: "set (dict_values m1) \<inter> set files = {}"
      unfolding m1_def set_values_dict_append using inter pn by auto
    from Cons.IH [OF df d1 i1] Inr
    show ?thesis unfolding m1_def set_values_dict_append by auto
  qed
qed

lemma hash_pass_values:
  assumes "distinct (dict_values size_map)" and "distinct (dict_values m)"
    and "set (dict_values m) \<inter> set (dict_values size_map) = {}"
  shows "distinct (dict_values (hash_pass fs size_map m))"
  using assms
proof (induction size_map arbitrary: m)
  case Nil
  then show ?case by simp
next
  case (Cons b size_map)
  obtain s files where b: "b = (s, files)" by (cases b)
  have df: "distinct files" and ds: "distinct (dict_values size_map)"
    and fs_disj: "set files \<inter> set (dict_values size_map) = {}"
    and mf: "set (dict_values m) \<inter> set files = {}"
    and ms: "set (dict_values m) \<inter> set (dict_values size_map) = {}"
    using Cons.prems by (auto simp: b)
  show ?case
  proof (cases "length files > 1")
    case True
    define m1 where "m1 = hash_files fs files m"
    from hash_files_values [OF df Cons.prems(2) mf, of fs]
    have d1: "distinct (dict_values m1)"
      and s1: "set (dict_values m1) \<subseteq> set (dict_values m) \<union> set files"
      by (simp_all add: m1_def)
    have i1: "set (dict_values m1) \<inter> set (dict_values size_map) = {}"
      using s1 ms fs_disj by auto
    from Cons.IH [OF ds d1 i1] True show ?thesis by (simp add: b m1_def)
  next
    case False
    then show ?thesis using Cons.IH [OF ds Cons.prems(2) ms] by (simp add: b)
  qed
qed

lemma set_values_filter: "set (dict_values (filter P d)) \<subseteq> set (dict_values d)"
  by (induction d) auto

lemma distinct_values_filter:
  "distinct (dict_values d) \<Longrightarrow> distinct (dict_values (filter P d))"
proof (induction d)
  case Nil
  then show ?case by simp
next
  case (Cons kv d)
  obtain k vs where kv: "kv = (k, vs)" by (cases kv)
  from Cons.prems have dv: "distinct vs" "distinct (dict_values d)"
    and disj: "set vs \<inter> set (dict_values d) = {}"
    by (simp_all add: kv)
  have "set vs \<inter> set (dict_values (filter P d)) = {}"
    using disj set_values_filter [of P d] by blast
  then show ?case using Cons.IH [OF dv(2)] dv(1) by (simp add: kv)
qed

lemma find_duplicates_disjoint:
  assumes "find_duplicates fs directory min_size = Inr groups"
    and "rglob fs directory = Inr listing" and "distinct listing"
  shows "distinct (dict_values groups)"
proof -
  from assms(1,2) obtain size_map where sp: "size_pass fs min_size listing [] = Inr size_map"
    and g: "groups = filter (\<lambda>(h, paths). length paths > 1) (hash_pass fs size_map [])"
    by (auto simp: find_duplicates_def split: sum.splits)
  from size_pass_values [OF sp assms(3)] have "distinct (dict_values size_map)" by simp
  then have "distinct (dict_values (hash_pass fs size_map []))"
    by (rule hash_pass_values) simp_all
  then show ?thesis unfolding g by (rule distinct_values_filter)
qed

lemma distinct_values_same_group:
  assumes "distinct (dict_values d)" and "(h, ps) \<in> set d" and "(h', ps') \<in> set d"
    and "k \<in> set ps" and "k \<in> set ps'"
  shows "ps = ps'"
  using assms
proof (induction d)
  case Nil
  then show ?case by simp
next
  case (Cons kv d)
  obtain k0 vs where kv: "kv = (k0, vs)" by (cases kv)
  from Cons.prems(1) have dv: "distinct (dict_values d)"
    and disj: "set vs \<inter> set (dict_values d) = {}"
    by (simp_all add: kv)
  have in_rest: "k \<in> set (dict_values d)" if "(x, qs) \<in> set d" "k \<in> set qs" for x qs
    using that by (rule dict_values_mem)
  show ?case
  proof (cases "(h, ps) = kv")
    case True
    show ?thesis
    proof (cases "(h', ps') = kv")
      case True
      with \<open>(h, ps) = kv\<close> show ?thesis by auto
    next
      case False
      then have "(h', ps') \<in> set d" using Cons.prems(3) by simp
      from in_rest [OF this Cons.prems(5)] True Cons.prems(4) disj show ?thesis by (auto simp: kv)
    qed
  next
    case False
    then have a: "(h, ps) \<in> set d" using Cons.prems(2) by simp
    show ?thesis
    proof (cases "(h', ps') = kv")
      case True
      from in_rest [OF a Cons.prems(4)] True Cons.prems(5) disj show ?thesis by (auto simp: kv)
    next
      case False
      then have "(h', ps') \<in> set d" using Cons.prems(3) by simp
      from Cons.IH [OF dv a this Cons.prems(4,5)] show ?thesis .
    qed
  qed
qed

lemma scan_then_remove_keeps:
  assumes "find_duplicates fs directory min_size = Inr groups"
    and "rglob fs directory = Inr listing" and "distinct listing"
    and "(h, paths) \<in> set groups" and "keep \<in> set policies"
  shows "\<exists>k. select_keep keep paths = Inr k \<and> k \<in> set paths \<and>
     (\<forall>ds. returned (remove_duplicates fs groups keep dry_run) = Inr ds \<longrightarrow> k \<notin> set ds) \<and>
     k \<notin> fst ` set (os_remove_calls fs groups keep dry_run) \<and>
     ((\<forall>(h', ps) \<in> set groups. \<forall>p \<in> set ps. p \<noteq> k \<longrightarrow>
          (\<forall>es. unlink_effect fs p es k = es k)) \<longrightarrow>
        entries (final_fs (remove_duplicates fs groups keep dry_run)) k = entries fs k)"
proof -
  have "2 \<le> length paths" using find_duplicates_length [OF assms(1,4)] .
  then have "paths \<noteq> []" by auto
  from select_keep_returns [OF assms(5) this] obtain k where
    k: "select_keep keep paths = Inr k" "k \<in> set paths" by blast
  have d: "distinct (dict_values groups)" using assms(1,2,3) by (rule find_duplicates_disjoint)
  have oc: "\<forall>(h', ps) \<in> set groups. k \<in> set ps \<longrightarrow> select_keep keep ps = Inr k"
  proof (clarify)
    fix h' ps assume "(h', ps) \<in> set groups" "k \<in> set ps"
    from distinct_values_same_group [OF d assms(4) this(1) k(2) this(2)] k(1)
    show "select_keep keep ps = Inr k" by simp
  qed
  have a: "\<forall>ds. returned (remove_duplicates fs groups keep dry_run) = Inr ds \<longrightarrow> k \<notin> set ds"
    and b: "k \<notin> fst ` set (os_remove_calls fs groups keep dry_run)"
    using remove_duplicates_keep [OF oc, where fs = fs and dry = dry_run] by simp_all
  have c: "(\<forall>(h', ps) \<in> set groups. \<forall>p \<in> set ps. p \<noteq> k \<longrightarrow>
          (\<forall>es. unlink_effect fs p es k = es k)) \<longrightarrow>
        entries (final_fs (remove_duplicates fs groups keep dry_run)) k = entries fs k"
    using remove_duplicates_frame [OF oc] by blast
  from k a b c show ?thesis by (intro exI [of _ k] conjI)
qed

end
